theory Spec2Isabelle
  imports Main "HOL-Library.AList"
begin

section \<open>The event pool: data model\<close>

text \<open>
  The class \<^verbatim>\<open>EventPool\<close> keeps two static tables,
  \<^verbatim>\<open>events : Map<string, Map<symbol, WeakRef<Handler>>>\<close> and
  \<^verbatim>\<open>handlerMap : Map<string, Map<Handler, symbol>>\<close>.
  A JavaScript \<^verbatim>\<open>Map\<close> iterates in insertion order, \<^verbatim>\<open>set\<close> on a
  present key replaces the value in place and on an absent key appends, and
  \<^verbatim>\<open>delete\<close> removes the entry: an association list with \<open>map_of\<close>,
  \<open>AList.update\<close> and \<open>AList.delete\<close>. The inner maps are mutated in place; the
  model writes the new inner map back under its (present) key, which keeps its position.

  A symbol is a fresh token; the host's allocator is the counter \<open>nextSymbol\<close>.
  A handler is a function object, compared by identity: \<open>Fn n\<close> is a function of the
  caller with identity \<open>n\<close>, and \<open>OnceHandler k event handler\<close> is the closure
  \<^verbatim>\<open>onceHandler\<close> that \<^verbatim>\<open>once\<close> creates (identity \<open>k\<close>, taken from the
  counter \<open>nextClosure\<close>), which has captured \<open>event\<close> and \<open>handler\<close>.
  Every call of a handler is recorded in \<open>calls\<close>.

  What \<^verbatim>\<open>WeakRef.deref\<close> returns is decided by the host's memory manager; the
  operations that read a weak reference take the predicate \<open>live\<close> saying which
  handlers have not been reclaimed.

  The loop of \<^verbatim>\<open>emit\<close> holds the inner \<^verbatim>\<open>Map\<close> object of its event while
  handlers run, and a handler may call \<^verbatim>\<open>removeAllListeners\<close> or
  \<^verbatim>\<open>removeAll\<close>, which take that object out of \<^verbatim>\<open>events\<close> without
  changing it. So the inner maps of \<^verbatim>\<open>events\<close> have an identity: \<open>eventMapId\<close>
  gives the identity of the object that \<open>events\<close> holds for an event (taken from the
  counter \<open>nextMapId\<close> by \<^verbatim>\<open>new Map()\<close>), and \<open>detached\<close> keeps the objects
  that were taken out of \<open>events\<close>, as they were then: nothing changes a map that
  \<open>events\<close> no longer holds.
\<close>

type_synonym event = string
type_synonym symbol = nat

datatype handler = Fn nat | OnceHandler nat event handler

datatype weakref = WeakRef handler

fun deref :: "(handler \<Rightarrow> bool) \<Rightarrow> weakref \<Rightarrow> handler option" where
  "deref live (WeakRef handler) = (if live handler then Some handler else None)"

record 'a pool =
  events :: "(event \<times> (symbol \<times> weakref) list) list"
  handlerMap :: "(event \<times> (handler \<times> symbol) list) list"
  nextSymbol :: nat
  nextClosure :: nat
  calls :: "(handler \<times> 'a) list"
  eventMapId :: "(event \<times> nat) list"
  nextMapId :: nat
  detached :: "(nat \<times> (symbol \<times> weakref) list) list"

definition empty_pool :: "'a pool" where
  "empty_pool = \<lparr>events = [], handlerMap = [], nextSymbol = 0, nextClosure = 0, calls = [],
                  eventMapId = [], nextMapId = 0, detached = []\<rparr>"

text \<open>
  A function of the caller is code that the pool does not know. Called with its
  arguments while the pool is in some state, it returns or throws, and leaves the pool in
  the state that its own calls of the pool have produced; or it does not come back at all
  (\<open>None\<close>). The behaviour of the functions of the callers is a parameter \<open>beh\<close> of
  every operation that calls handlers: \<open>beh n\<close> is the behaviour of \<open>Fn n\<close>. The
  state that it is given has the record of the calls so far, so that a function may do at
  one call what it does not do at the next.
\<close>

datatype 'a outcome = Returns "'a pool" | Throws "'a pool"

fun state_of :: "'a outcome \<Rightarrow> 'a pool" where
  "state_of (Returns st) = st"
| "state_of (Throws st) = st"

type_synonym 'a behaviour = "nat \<Rightarrow> 'a \<Rightarrow> 'a pool \<Rightarrow> 'a outcome option"

section \<open>The operations\<close>

text \<open>One round of the second loop of \<^verbatim>\<open>cleanDeadHandlers\<close>: delete the dead id,
  then delete the first reverse entry whose value is that id.\<close>

definition purge ::
  "symbol \<Rightarrow> (symbol \<times> weakref) list \<times> (handler \<times> symbol) list
     \<Rightarrow> (symbol \<times> weakref) list \<times> (handler \<times> symbol) list" where
  "purge eventId tabs =
     (case tabs of (eventMap, hMap) \<Rightarrow>
       (AList.delete eventId eventMap,
        (case find (\<lambda>(handler, sid). sid = eventId) hMap of
           None \<Rightarrow> hMap
         | Some (handler, sid) \<Rightarrow> AList.delete handler hMap)))"

definition deadEventIds :: "(handler \<Rightarrow> bool) \<Rightarrow> (symbol \<times> weakref) list \<Rightarrow> symbol list" where
  "deadEventIds live eventMap =
     map fst (filter (\<lambda>(eventId, weakRef). deref live weakRef = None) eventMap)"

definition cleanDeadHandlers :: "(handler \<Rightarrow> bool) \<Rightarrow> event \<Rightarrow> 'a pool \<Rightarrow> 'a pool" where
  "cleanDeadHandlers live event st =
     (case map_of (events st) event of
        None \<Rightarrow> st
      | Some eventMap \<Rightarrow>
         (case map_of (handlerMap st) event of
            None \<Rightarrow> st
          | Some hMap \<Rightarrow>
             (case fold purge (deadEventIds live eventMap) (eventMap, hMap) of
                (eventMap', hMap') \<Rightarrow>
                  st\<lparr>events := AList.update event eventMap' (events st),
                     handlerMap := AList.update event hMap' (handlerMap st)\<rparr>)))"

text \<open>\<^verbatim>\<open>on\<close>. Where it creates the inner map of \<^verbatim>\<open>events\<close>, the new object gets
  its identity.\<close>

definition on :: "event \<Rightarrow> handler \<Rightarrow> 'a pool \<Rightarrow> symbol \<times> 'a pool" where
  "on event handler st =
     (let created = (map_of (events st) event = None);
          events1 = (if created then AList.update event [] (events st) else events st);
          handlerMap1 = (if map_of (handlerMap st) event = None
                         then AList.update event [] (handlerMap st) else handlerMap st);
          eventId = nextSymbol st;
          events2 = (case map_of events1 event of
                       None \<Rightarrow> events1
                     | Some eventMap \<Rightarrow>
                         AList.update event (AList.update eventId (WeakRef handler) eventMap) events1);
          handlerMap2 = (case map_of handlerMap1 event of
                           None \<Rightarrow> handlerMap1
                         | Some hMap \<Rightarrow>
                             AList.update event (AList.update handler eventId hMap) handlerMap1)
      in (eventId, st\<lparr>events := events2, handlerMap := handlerMap2,
                       nextSymbol := Suc (nextSymbol st),
                       eventMapId := (if created then AList.update event (nextMapId st) (eventMapId st)
                                      else eventMapId st),
                       nextMapId := (if created then Suc (nextMapId st) else nextMapId st)\<rparr>))"

definition off :: "event \<Rightarrow> handler \<Rightarrow> 'a pool \<Rightarrow> 'a pool" where
  "off event handler st =
     (case map_of (events st) event of
        None \<Rightarrow> st
      | Some eventMap \<Rightarrow>
         (case map_of (handlerMap st) event of
            None \<Rightarrow> st
          | Some hMap \<Rightarrow>
             (case map_of hMap handler of
                None \<Rightarrow> st
              | Some eventId \<Rightarrow>
                  st\<lparr>events := AList.update event (AList.delete eventId eventMap) (events st),
                     handlerMap := AList.update event (AList.delete handler hMap) (handlerMap st)\<rparr>)))"

definition once :: "event \<Rightarrow> handler \<Rightarrow> 'a pool \<Rightarrow> symbol \<times> 'a pool" where
  "once event handler st =
     (let onceHandler = OnceHandler (nextClosure st) event handler
      in on event onceHandler (st\<lparr>nextClosure := Suc (nextClosure st)\<rparr>))"

definition offById :: "(handler \<Rightarrow> bool) \<Rightarrow> symbol \<Rightarrow> 'a pool \<Rightarrow> 'a pool" where
  "offById live eventId st =
     (case find (\<lambda>(event, eventMap). map_of eventMap eventId \<noteq> None) (events st) of
        None \<Rightarrow> st
      | Some (event, eventMap) \<Rightarrow>
          (let handlerMap' =
                 (case Option.bind (map_of eventMap eventId) (deref live) of
                    None \<Rightarrow> handlerMap st
                  | Some handler \<Rightarrow>
                      (case map_of (handlerMap st) event of
                         None \<Rightarrow> handlerMap st
                       | Some hMap \<Rightarrow>
                           AList.update event (AList.delete handler hMap) (handlerMap st)))
           in st\<lparr>events := AList.update event (AList.delete eventId eventMap) (events st),
                 handlerMap := handlerMap'\<rparr>))"

text \<open>The inner map that \<^verbatim>\<open>events\<close> holds for an event, with its identity.\<close>

definition held_by_events :: "'a pool \<Rightarrow> event \<Rightarrow> (nat \<times> (symbol \<times> weakref) list) list" where
  "held_by_events st event =
     (case map_of (events st) event of
        None \<Rightarrow> []
      | Some eventMap \<Rightarrow>
         (case map_of (eventMapId st) event of
            None \<Rightarrow> []
          | Some i \<Rightarrow> [(i, eventMap)]))"

text \<open>\<^verbatim>\<open>removeAll\<close> and \<^verbatim>\<open>removeAllListeners\<close> take inner maps out of the outer
  maps; the objects themselves stay as they are.\<close>

definition removeAll_pool :: "'a pool \<Rightarrow> 'a pool" where
  "removeAll_pool st =
     st\<lparr>events := [], handlerMap := [],
        eventMapId := [],
        detached := concat (map (held_by_events st) (map fst (events st))) @ detached st\<rparr>"

definition removeAllListeners :: "event \<Rightarrow> 'a pool \<Rightarrow> 'a pool" where
  "removeAllListeners event st =
     st\<lparr>events := AList.delete event (events st),
        handlerMap := AList.delete event (handlerMap st),
        eventMapId := AList.delete event (eventMapId st),
        detached := held_by_events st event @ detached st\<rparr>"

text \<open>Calling a handler. A function of the caller does what \<open>beh\<close> says. The closure of
  \<^verbatim>\<open>once\<close> calls the captured handler and then \<^verbatim>\<open>this.off(event, onceHandler)\<close>;
  there is no \<^verbatim>\<open>try\<close> around the call, so the closure reaches \<^verbatim>\<open>off\<close> only when
  the captured handler has returned, and throws what that handler throws.\<close>

fun invoke :: "'a behaviour \<Rightarrow> handler \<Rightarrow> 'a \<Rightarrow> 'a pool \<Rightarrow> 'a outcome option" where
  "invoke beh (Fn n) args st = beh n args (st\<lparr>calls := calls st @ [(Fn n, args)]\<rparr>)"
| "invoke beh (OnceHandler k event handler) args st =
     (case invoke beh handler args (st\<lparr>calls := calls st @ [(OnceHandler k event handler, args)]\<rparr>) of
        None \<Rightarrow> None
      | Some (Returns st') \<Rightarrow> Some (Returns (off event (OnceHandler k event handler) st'))
      | Some (Throws st') \<Rightarrow> Some (Throws st'))"

text \<open>What the inner map with identity \<open>mapId\<close> of an event contains now: the row of the
  event while \<^verbatim>\<open>events\<close> holds that object, and what the object was when it was
  taken out of \<^verbatim>\<open>events\<close> afterwards.\<close>

definition held_map :: "'a pool \<Rightarrow> event \<Rightarrow> nat option \<Rightarrow> (symbol \<times> weakref) list" where
  "held_map st event mapId =
     (if map_of (eventMapId st) event = mapId
      then (case map_of (events st) event of None \<Rightarrow> [] | Some eventMap \<Rightarrow> eventMap)
      else (case mapId of
              None \<Rightarrow> []
            | Some i \<Rightarrow> (case map_of (detached st) i of None \<Rightarrow> [] | Some eventMap \<Rightarrow> eventMap)))"

text \<open>The loop of \<^verbatim>\<open>emit\<close> iterates the \<^verbatim>\<open>Map\<close> object itself while the handlers
  run. An iteration of a \<^verbatim>\<open>Map\<close> goes through the entries in insertion order, does not
  come to an entry that was deleted before it was reached, and comes to the entries that were
  added in the meantime. A symbol is never stored twice, so the entry that comes next is the
  first one whose symbol the loop has not passed yet; \<open>passed\<close> lists the symbols it has.
  There is no \<^verbatim>\<open>try\<close> in the loop: when a handler throws, the loop ends and
  \<^verbatim>\<open>emit\<close> throws. Handlers that keep subscribing keep the loop running: \<open>None\<close> is
  an \<^verbatim>\<open>emit\<close> that does not return.\<close>

partial_function (option) emit_loop ::
  "(handler \<Rightarrow> bool) \<Rightarrow> 'a behaviour \<Rightarrow> event \<Rightarrow> 'a \<Rightarrow> nat option \<Rightarrow> symbol list \<Rightarrow> 'a pool
     \<Rightarrow> 'a outcome option" where
  "emit_loop live beh event args mapId passed st =
     (case find (\<lambda>q. fst q \<notin> set passed) (held_map st event mapId) of
        None \<Rightarrow> Some (Returns st)
      | Some (eventId, weakRef) \<Rightarrow>
         (case deref live weakRef of
            None \<Rightarrow> emit_loop live beh event args mapId (eventId # passed) st
          | Some handler \<Rightarrow>
             (case invoke beh handler args st of
                None \<Rightarrow> None
              | Some (Returns st') \<Rightarrow> emit_loop live beh event args mapId (eventId # passed) st'
              | Some (Throws st') \<Rightarrow> Some (Throws st'))))"

definition emit :: "(handler \<Rightarrow> bool) \<Rightarrow> 'a behaviour \<Rightarrow> event \<Rightarrow> 'a \<Rightarrow> 'a pool \<Rightarrow> 'a outcome option" where
  "emit live beh event args st =
     (let st1 = cleanDeadHandlers live event st
      in case map_of (events st1) event of
           None \<Rightarrow> Some (Returns st1)
         | Some eventMap \<Rightarrow>
             emit_loop live beh event args (map_of (eventMapId st1) event) [] st1)"

definition sweepDeadHandlers :: "(handler \<Rightarrow> bool) \<Rightarrow> 'a pool \<Rightarrow> 'a pool" where
  "sweepDeadHandlers live st = fold (cleanDeadHandlers live) (map fst (events st)) st"

section \<open>The public interface as a caller sees it\<close>

text \<open>A caller holds functions of its own only: the closure that \<^verbatim>\<open>once\<close> creates
  is not returned (the symbol is), so a caller passes \<open>Fn n\<close> wherever a handler is
  expected. \<open>exec\<close> runs one public operation; \<open>live\<close> is the state of the memory
  manager while it runs. Only \<^verbatim>\<open>emit\<close> calls handlers; the other operations
  return.\<close>

datatype 'a operation =
    On event nat
  | Once event nat
  | Off event nat
  | OffById symbol
  | RemoveAllListeners event
  | RemoveAll
  | Emit event 'a
  | Sweep

fun exec :: "(handler \<Rightarrow> bool) \<Rightarrow> 'a behaviour \<Rightarrow> 'a operation \<Rightarrow> 'a pool \<Rightarrow> 'a outcome option" where
  "exec live beh (On event n) st = Some (Returns (snd (on event (Fn n) st)))"
| "exec live beh (Once event n) st = Some (Returns (snd (once event (Fn n) st)))"
| "exec live beh (Off event n) st = Some (Returns (off event (Fn n) st))"
| "exec live beh (OffById eventId) st = Some (Returns (offById live eventId st))"
| "exec live beh (RemoveAllListeners event) st = Some (Returns (removeAllListeners event st))"
| "exec live beh RemoveAll st = Some (Returns (removeAll_pool st))"
| "exec live beh (Emit event args) st = emit live beh event args st"
| "exec live beh Sweep st = Some (Returns (sweepDeadHandlers live st))"

text \<open>A sequence of public operations. A caller that catches what an \<^verbatim>\<open>emit\<close> throws
  goes on with the pool as the \<^verbatim>\<open>emit\<close> has left it.\<close>

fun run :: "(handler \<Rightarrow> bool) \<Rightarrow> 'a behaviour \<Rightarrow> 'a operation list \<Rightarrow> 'a pool \<Rightarrow> 'a pool option" where
  "run live beh [] st = Some st"
| "run live beh (op # ops) st =
     (case exec live beh op st of
        None \<Rightarrow> None
      | Some out \<Rightarrow> run live beh ops (state_of out))"

text \<open>Functions of the caller that keep away from the pool. \<open>leaves_pool\<close>: the
  function returns or throws, and has not called the pool. \<open>returns_quietly\<close>: it
  returns, and has not called the pool. For a closure of \<^verbatim>\<open>once\<close> it is the function
  it has captured that counts.\<close>

fun leaves_pool :: "'a behaviour \<Rightarrow> handler \<Rightarrow> bool" where
  "leaves_pool beh (Fn n) =
     (\<forall>args st. beh n args st = Some (Returns st) \<or> beh n args st = Some (Throws st))"
| "leaves_pool beh (OnceHandler k event handler) = leaves_pool beh handler"

fun returns_quietly :: "'a behaviour \<Rightarrow> handler \<Rightarrow> bool" where
  "returns_quietly beh (Fn n) = (\<forall>args st. beh n args st = Some (Returns st))"
| "returns_quietly beh (OnceHandler k event handler) = returns_quietly beh handler"


section \<open>Reading the tables\<close>

definition lookup_events :: "'a pool \<Rightarrow> event \<Rightarrow> symbol \<Rightarrow> weakref option" where
  "lookup_events st event eventId =
     (case map_of (events st) event of None \<Rightarrow> None | Some eventMap \<Rightarrow> map_of eventMap eventId)"

definition lookup_handlerMap :: "'a pool \<Rightarrow> event \<Rightarrow> handler \<Rightarrow> symbol option" where
  "lookup_handlerMap st event handler =
     (case map_of (handlerMap st) event of None \<Rightarrow> None | Some hMap \<Rightarrow> map_of hMap handler)"

text \<open>The weak reference under this symbol no longer resolves.\<close>

definition dead_at :: "(handler \<Rightarrow> bool) \<Rightarrow> 'a pool \<Rightarrow> event \<Rightarrow> symbol \<Rightarrow> bool" where
  "dead_at live st event eventId =
     (case lookup_events st event eventId of
        None \<Rightarrow> False
      | Some weakRef \<Rightarrow> deref live weakRef = None)"

fun target :: "weakref \<Rightarrow> handler" where
  "target (WeakRef handler) = handler"

text \<open>The handlers that the weak references of an event resolve to, in iteration order.\<close>

definition live_targets :: "(handler \<Rightarrow> bool) \<Rightarrow> 'a pool \<Rightarrow> event \<Rightarrow> handler list" where
  "live_targets live st event =
     (case map_of (events st) event of
        None \<Rightarrow> []
      | Some eventMap \<Rightarrow> filter live (map (\<lambda>q. target (snd q)) eventMap))"

text \<open>The calls that one invocation of a handler records when the functions keep away
  from the pool: the handler, and with a closure of \<^verbatim>\<open>once\<close> the function inside.\<close>

fun trace :: "handler \<Rightarrow> 'a \<Rightarrow> (handler \<times> 'a) list" where
  "trace (Fn n) args = [(Fn n, args)]"
| "trace (OnceHandler k event handler) args =
     (OnceHandler k event handler, args) # trace handler args"

text \<open>The calls of handler \<open>h\<close> among a list of calls.\<close>

definition calls_of :: "handler \<Rightarrow> (handler \<times> 'a) list \<Rightarrow> (handler \<times> 'a) list" where
  "calls_of h cs = filter (\<lambda>c. fst c = h) cs"

section \<open>Strong references\<close>

text \<open>A \<^verbatim>\<open>WeakRef\<close> does not keep its target alive. A \<^verbatim>\<open>Map\<close> keeps its keys
  and values alive, so the pool holds strongly every key of an inner map of
  \<^verbatim>\<open>handlerMap\<close>, and with a closure of \<^verbatim>\<open>once\<close> the handler it captured.\<close>

fun captured :: "handler \<Rightarrow> handler list" where
  "captured (Fn n) = [Fn n]"
| "captured (OnceHandler k event handler) = OnceHandler k event handler # captured handler"

definition strong_handlers :: "'a pool \<Rightarrow> handler list" where
  "strong_handlers st =
     concat (map (\<lambda>p. concat (map (\<lambda>q. captured (fst q)) (snd p))) (handlerMap st))"

section \<open>Invariants of the tables\<close>

text \<open>Every \<^verbatim>\<open>Map\<close> has each key once.\<close>

definition table_distinct :: "('k \<times> ('i \<times> 'v) list) list \<Rightarrow> bool" where
  "table_distinct al =
     (distinct (map fst al) \<and> (\<forall>p \<in> set al. distinct (map fst (snd p))))"

definition maps_distinct :: "'a pool \<Rightarrow> bool" where
  "maps_distinct st = (table_distinct (events st) \<and> table_distinct (handlerMap st))"

text \<open>The symbols in the subscription tables were minted before: the next one is new.\<close>

definition symbols_fresh :: "'a pool \<Rightarrow> bool" where
  "symbols_fresh st = (\<forall>p \<in> set (events st). \<forall>q \<in> set (snd p). fst q < nextSymbol st)"

text \<open>No symbol is held by the subscription tables of two events.\<close>

definition symbols_unique :: "'a pool \<Rightarrow> bool" where
  "symbols_unique st =
     (\<forall>p \<in> set (events st). \<forall>p' \<in> set (events st). \<forall>q \<in> set (snd p). \<forall>q' \<in> set (snd p').
        fst q = fst q' \<longrightarrow> fst p = fst p')"

text \<open>A closure of \<^verbatim>\<open>once\<close> that is subscribed was created before, sits in the table
  of the event it captured, and wraps a function of the caller.\<close>

fun is_wrapper :: "handler \<Rightarrow> bool" where
  "is_wrapper (Fn n) = False"
| "is_wrapper (OnceHandler k event handler) = True"

fun scoped :: "nat \<Rightarrow> event \<Rightarrow> handler \<Rightarrow> bool" where
  "scoped c event (Fn n) = True"
| "scoped c event (OnceHandler k event' handler) =
     (k < c \<and> event' = event \<and> \<not> is_wrapper handler)"

definition handlers_scoped :: "'a pool \<Rightarrow> bool" where
  "handlers_scoped st =
     (\<forall>p \<in> set (events st). \<forall>q \<in> set (snd p). scoped (nextClosure st) (fst p) (target (snd q)))"

text \<open>Reverse to forward: a reverse entry of a live handler has its subscription entry.\<close>

definition reverse_sound :: "(handler \<Rightarrow> bool) \<Rightarrow> 'a pool \<Rightarrow> bool" where
  "reverse_sound live st =
     (\<forall>p \<in> set (handlerMap st). \<forall>q \<in> set (snd p).
        live (fst q) \<longrightarrow> lookup_events st (fst p) (snd q) = Some (WeakRef (fst q)))"

text \<open>Forward to reverse: a subscription entry of a live handler has its reverse entry.\<close>

definition forward_sound :: "(handler \<Rightarrow> bool) \<Rightarrow> 'a pool \<Rightarrow> bool" where
  "forward_sound live st =
     (\<forall>p \<in> set (events st). \<forall>q \<in> set (snd p).
        live (target (snd q)) \<longrightarrow> lookup_handlerMap st (fst p) (target (snd q)) = Some (fst q))"

text \<open>Forward to reverse, for the closures of \<^verbatim>\<open>once\<close> only.\<close>

definition wrappers_indexed :: "(handler \<Rightarrow> bool) \<Rightarrow> 'a pool \<Rightarrow> bool" where
  "wrappers_indexed live st =
     (\<forall>p \<in> set (events st). \<forall>q \<in> set (snd p).
        live (target (snd q)) \<and> is_wrapper (target (snd q))
          \<longrightarrow> lookup_handlerMap st (fst p) (target (snd q)) = Some (fst q))"

definition pool_inv :: "(handler \<Rightarrow> bool) \<Rightarrow> 'a pool \<Rightarrow> bool" where
  "pool_inv live st =
     (maps_distinct st \<and> symbols_fresh st \<and> symbols_unique st \<and> handlers_scoped st
      \<and> reverse_sound live st \<and> wrappers_indexed live st)"

text \<open>What holds of every state that callers reach from the empty pool, whatever their
  functions do through the public operations: \<open>pool_inv\<close>, and in the inner maps that
  were taken out of \<^verbatim>\<open>events\<close> a closure of \<^verbatim>\<open>once\<close> has a function of the
  caller inside, as it has in \<^verbatim>\<open>events\<close>. \<open>keeps_inv\<close>: the functions of the callers
  keep that, as they do when they act on the pool through its public operations.\<close>

fun plain_inside :: "handler \<Rightarrow> bool" where
  "plain_inside (Fn n) = True"
| "plain_inside (OnceHandler k event handler) = (\<not> is_wrapper handler)"

definition detached_plain :: "'a pool \<Rightarrow> bool" where
  "detached_plain st =
     (\<forall>p \<in> set (detached st). \<forall>q \<in> set (snd p). plain_inside (target (snd q)))"

definition reach_inv :: "(handler \<Rightarrow> bool) \<Rightarrow> 'a pool \<Rightarrow> bool" where
  "reach_inv live st = (pool_inv live st \<and> detached_plain st)"

definition keeps_inv :: "(handler \<Rightarrow> bool) \<Rightarrow> 'a behaviour \<Rightarrow> bool" where
  "keeps_inv live beh =
     (\<forall>n args st out. reach_inv live st \<and> beh n args st = Some out
        \<longrightarrow> reach_inv live (state_of out))"



text \<open>A handler that a caller passes is live: the caller holds it.\<close>

fun caller_holds :: "(handler \<Rightarrow> bool) \<Rightarrow> 'a operation \<Rightarrow> bool" where
  "caller_holds live (On event n) = live (Fn n)"
| "caller_holds live (Once event n) = live (Fn n)"
| "caller_holds live (Off event n) = live (Fn n)"
| "caller_holds live _ = True"

text \<open>The handlers that an emit on the event can call: the targets of its weak
  references and what they captured.\<close>

definition event_handlers :: "'a pool \<Rightarrow> event \<Rightarrow> handler list" where
  "event_handlers st event =
     (case map_of (events st) event of
        None \<Rightarrow> []
      | Some eventMap \<Rightarrow> concat (map (\<lambda>q. captured (target (snd q))) eventMap))"

section \<open>An emit whose functions return and keep away from the pool\<close>

text \<open>The three functions of this section are not translated from the code. They say what
  \<open>invoke\<close>, \<open>emit_loop\<close> and \<open>emit\<close> above compute when every function that the
  emit calls returns without having called the pool; the lemmas \<open>invoke_returns\<close>,
  \<open>emit_loop_refines\<close> and \<open>emit_returns\<close> below prove that, and the proofs about
  \<open>emit\<close> go through them. In that case the only change that the tables see during the
  loop is the \<^verbatim>\<open>off\<close> of a closure of \<^verbatim>\<open>once\<close>, which deletes the entry of that
  closure, so that the loop visits the symbols that the row holds at its start, in order.\<close>

fun invoke_quiet :: "handler \<Rightarrow> 'a \<Rightarrow> 'a pool \<Rightarrow> 'a pool" where
  "invoke_quiet (Fn n) args st = st\<lparr>calls := calls st @ [(Fn n, args)]\<rparr>"
| "invoke_quiet (OnceHandler k event handler) args st =
     off event (OnceHandler k event handler)
       (invoke_quiet handler args (st\<lparr>calls := calls st @ [(OnceHandler k event handler, args)]\<rparr>))"

fun emit_loop_quiet :: "(handler \<Rightarrow> bool) \<Rightarrow> event \<Rightarrow> 'a \<Rightarrow> symbol list \<Rightarrow> 'a pool \<Rightarrow> 'a pool" where
  "emit_loop_quiet live event args [] st = st"
| "emit_loop_quiet live event args (eventId # ids) st =
     (case map_of (events st) event of
        None \<Rightarrow> st
      | Some eventMap \<Rightarrow>
         (case map_of eventMap eventId of
            None \<Rightarrow> emit_loop_quiet live event args ids st
          | Some weakRef \<Rightarrow>
             (case deref live weakRef of
                None \<Rightarrow> emit_loop_quiet live event args ids st
              | Some handler \<Rightarrow> emit_loop_quiet live event args ids (invoke_quiet handler args st))))"

definition emit_quiet :: "(handler \<Rightarrow> bool) \<Rightarrow> event \<Rightarrow> 'a \<Rightarrow> 'a pool \<Rightarrow> 'a pool" where
  "emit_quiet live event args st =
     (let st1 = cleanDeadHandlers live event st
      in case map_of (events st1) event of
           None \<Rightarrow> st1
         | Some eventMap \<Rightarrow> emit_loop_quiet live event args (map fst eventMap) st1)"

section \<open>Worked examples\<close>

text \<open>Function 1 is subscribed to \<open>a\<close>, function 3 to \<open>b\<close>, and function 2 once
  to \<open>a\<close>.\<close>

definition demo_pool :: "nat pool" where
  "demo_pool =
     snd (once ''a'' (Fn 2) (snd (on ''b'' (Fn 3) (snd (on ''a'' (Fn 1) empty_pool)))))"

text \<open>Functions that all return, and functions of which one throws and the others return;
  none of them calls the pool.\<close>

definition all_return :: "'a behaviour" where
  "all_return = (\<lambda>n args st. Some (Returns st))"

definition only_throws :: "nat \<Rightarrow> 'a behaviour" where
  "only_throws k = (\<lambda>n args st. if n = k then Some (Throws st) else Some (Returns st))"

section \<open>Effect of subscribing and unsubscribing on the tables\<close>

lemma on_fst: "fst (on event handler st) = nextSymbol st"
  by (simp add: on_def Let_def)

lemma on_lookup_events:
  "lookup_events (snd (on event handler st)) e i =
     (if e = event \<and> i = nextSymbol st then Some (WeakRef handler) else lookup_events st e i)"
  by (auto simp: on_def Let_def lookup_events_def update_conv' split: option.splits)

lemma on_lookup_handlerMap:
  "lookup_handlerMap (snd (on event handler st)) e h =
     (if e = event \<and> h = handler then Some (nextSymbol st) else lookup_handlerMap st e h)"
  by (auto simp: on_def Let_def lookup_handlerMap_def update_conv' split: option.splits)

lemma on_counters:
  "nextSymbol (snd (on event handler st)) = Suc (nextSymbol st)"
  "nextClosure (snd (on event handler st)) = nextClosure st"
  "calls (snd (on event handler st)) = calls st"
  by (simp_all add: on_def Let_def)

lemma set_update_subset: "set (AList.update k v al) \<subseteq> insert (k, v) (set al)"
  by (induction al) auto

lemma set_delete_subset: "set (AList.delete k al) \<subseteq> set al"
  by (induction al) auto

lemma table_distinct_update:
  assumes "table_distinct al" "distinct (map fst v)"
  shows "table_distinct (AList.update k v al)"
  using assms set_update_subset[of k v al]
  unfolding table_distinct_def by (auto simp: distinct_update)

lemma table_distinct_delete:
  assumes "table_distinct al"
  shows "table_distinct (AList.delete k al)"
  using assms set_delete_subset[of k al]
  unfolding table_distinct_def by (auto simp: distinct_delete)

lemma table_distinct_lookup:
  "table_distinct al \<Longrightarrow> map_of al k = Some v \<Longrightarrow> distinct (map fst v)"
  unfolding table_distinct_def by (force dest: map_of_SomeD)

lemma table_distinct_set_inner:
  assumes "table_distinct al" "map_of al k = Some m"
  shows "table_distinct (AList.update k (AList.update i w m) al)"
    and "table_distinct (AList.update k (AList.delete i m) al)"
  using assms table_distinct_lookup[OF assms]
  by (simp_all add: table_distinct_update distinct_update distinct_delete)


lemma table_distinct_on_step:
  assumes "table_distinct al"
  shows "table_distinct
           (case map_of (if map_of al k = None then AList.update k [] al else al) k of
              None \<Rightarrow> (if map_of al k = None then AList.update k [] al else al)
            | Some m \<Rightarrow> AList.update k (AList.update i w m)
                          (if map_of al k = None then AList.update k [] al else al))"
proof (cases "map_of al k")
  case None
  have d: "table_distinct (AList.update k [] al)"
    using assms by (simp add: table_distinct_update)
  have m: "map_of (AList.update k [] al) k = Some []"
    by (simp add: update_conv')
  show ?thesis using None table_distinct_set_inner(1)[OF d m] by (simp add: m)
next
  case (Some m)
  then show ?thesis using table_distinct_set_inner(1)[OF assms Some] by simp
qed

lemma on_maps_distinct:
  assumes "maps_distinct st" shows "maps_distinct (snd (on event handler st))"
  using assms table_distinct_on_step[of "events st" event "nextSymbol st" "WeakRef handler"]
        table_distinct_on_step[of "handlerMap st" event handler "nextSymbol st"]
  by (simp add: maps_distinct_def on_def Let_def)

lemma once_eq:
  "once event handler st =
     on event (OnceHandler (nextClosure st) event handler) (st\<lparr>nextClosure := Suc (nextClosure st)\<rparr>)"
  by (simp add: once_def Let_def)

lemma lookup_nextClosure_update [simp]:
  "lookup_events (st\<lparr>nextClosure := c\<rparr>) = lookup_events st"
  "lookup_handlerMap (st\<lparr>nextClosure := c\<rparr>) = lookup_handlerMap st"
  by (auto simp: lookup_events_def lookup_handlerMap_def fun_eq_iff)

lemma lookup_calls_update [simp]:
  "lookup_events (st\<lparr>calls := c\<rparr>) = lookup_events st"
  "lookup_handlerMap (st\<lparr>calls := c\<rparr>) = lookup_handlerMap st"
  by (auto simp: lookup_events_def lookup_handlerMap_def fun_eq_iff)

lemma maps_distinct_field_update [simp]:
  "maps_distinct (st\<lparr>nextClosure := c\<rparr>) = maps_distinct st"
  "maps_distinct (st\<lparr>calls := cs\<rparr>) = maps_distinct st"
  by (simp_all add: maps_distinct_def)

lemma off_lookup_events:
  "lookup_events (off event handler st) e i =
     (if e = event \<and> lookup_handlerMap st event handler = Some i then None
      else lookup_events st e i)"
  by (auto simp: off_def lookup_events_def lookup_handlerMap_def update_conv' delete_conv'
           split: option.splits)

lemma off_lookup_handlerMap:
  "lookup_handlerMap (off event handler st) e h =
     (if e = event \<and> h = handler \<and> map_of (events st) event \<noteq> None then None
      else lookup_handlerMap st e h)"
  by (auto simp: off_def lookup_handlerMap_def update_conv' delete_conv'
           split: option.splits)

lemma off_counters:
  "nextSymbol (off event handler st) = nextSymbol st"
  "nextClosure (off event handler st) = nextClosure st"
  "calls (off event handler st) = calls st"
  by (simp_all add: off_def split: option.splits)

lemma off_maps_distinct:
  assumes "maps_distinct st" shows "maps_distinct (off event handler st)"
  using assms
  by (auto simp: maps_distinct_def off_def table_distinct_set_inner split: option.splits)

section \<open>The invariants in terms of lookups\<close>

lemma table_entry_iff:
  assumes "table_distinct al"
  shows "(\<exists>m. (k, m) \<in> set al \<and> (i, v) \<in> set m)
         \<longleftrightarrow> (case map_of al k of None \<Rightarrow> None | Some m \<Rightarrow> map_of m i) = Some v"
proof
  assume "\<exists>m. (k, m) \<in> set al \<and> (i, v) \<in> set m"
  then obtain m where m: "(k, m) \<in> set al" "(i, v) \<in> set m" by blast
  from assms m(1) have "map_of al k = Some m" "distinct (map fst m)"
    unfolding table_distinct_def by auto
  with m(2) show "(case map_of al k of None \<Rightarrow> None | Some m \<Rightarrow> map_of m i) = Some v"
    by simp
next
  assume "(case map_of al k of None \<Rightarrow> None | Some m \<Rightarrow> map_of m i) = Some v"
  then show "\<exists>m. (k, m) \<in> set al \<and> (i, v) \<in> set m"
    by (auto split: option.splits dest: map_of_SomeD)
qed

lemma table_ball_iff:
  assumes "table_distinct al"
  shows "(\<forall>p \<in> set al. \<forall>q \<in> set (snd p). P (fst p) (fst q) (snd q))
         \<longleftrightarrow> (\<forall>k i v. (case map_of al k of None \<Rightarrow> None | Some m \<Rightarrow> map_of m i) = Some v
                        \<longrightarrow> P k i v)"
proof -
  have "(\<forall>p \<in> set al. \<forall>q \<in> set (snd p). P (fst p) (fst q) (snd q))
        \<longleftrightarrow> (\<forall>k i v. (\<exists>m. (k, m) \<in> set al \<and> (i, v) \<in> set m) \<longrightarrow> P k i v)"
    by fastforce
  then show ?thesis by (simp only: table_entry_iff[OF assms])
qed

lemma symbols_fresh_iff:
  assumes "maps_distinct st"
  shows "symbols_fresh st \<longleftrightarrow> (\<forall>e i w. lookup_events st e i = Some w \<longrightarrow> i < nextSymbol st)"
  using assms
    table_ball_iff[of "events st" "\<lambda>e i w. i < nextSymbol st"]
  by (simp add: symbols_fresh_def maps_distinct_def lookup_events_def)

lemma handlers_scoped_iff:
  assumes "maps_distinct st"
  shows "handlers_scoped st \<longleftrightarrow>
         (\<forall>e i w. lookup_events st e i = Some w \<longrightarrow> scoped (nextClosure st) e (target w))"
  using assms
    table_ball_iff[of "events st" "\<lambda>e i w. scoped (nextClosure st) e (target w)"]
  by (simp add: handlers_scoped_def maps_distinct_def lookup_events_def)

lemma reverse_sound_iff:
  assumes "maps_distinct st"
  shows "reverse_sound live st \<longleftrightarrow>
         (\<forall>e h i. lookup_handlerMap st e h = Some i \<longrightarrow> live h
                    \<longrightarrow> lookup_events st e i = Some (WeakRef h))"
  using assms
    table_ball_iff[of "handlerMap st" "\<lambda>e h i. live h \<longrightarrow> lookup_events st e i = Some (WeakRef h)"]
  by (simp add: reverse_sound_def maps_distinct_def lookup_handlerMap_def)

lemma forward_sound_iff:
  assumes "maps_distinct st"
  shows "forward_sound live st \<longleftrightarrow>
         (\<forall>e i w. lookup_events st e i = Some w \<longrightarrow> live (target w)
                    \<longrightarrow> lookup_handlerMap st e (target w) = Some i)"
  using assms
    table_ball_iff[of "events st" "\<lambda>e i w. live (target w) \<longrightarrow> lookup_handlerMap st e (target w) = Some i"]
  by (simp add: forward_sound_def maps_distinct_def lookup_events_def)

lemma wrappers_indexed_iff:
  assumes "maps_distinct st"
  shows "wrappers_indexed live st \<longleftrightarrow>
         (\<forall>e i w. lookup_events st e i = Some w \<longrightarrow> live (target w) \<and> is_wrapper (target w)
                    \<longrightarrow> lookup_handlerMap st e (target w) = Some i)"
  using assms
    table_ball_iff[of "events st" "\<lambda>e i w. live (target w) \<and> is_wrapper (target w) \<longrightarrow> lookup_handlerMap st e (target w) = Some i"]
  by (simp add: wrappers_indexed_def maps_distinct_def lookup_events_def)

lemma symbols_unique_iff:
  assumes "maps_distinct st"
  shows "symbols_unique st \<longleftrightarrow>
         (\<forall>e e' i w w'. lookup_events st e i = Some w \<longrightarrow> lookup_events st e' i = Some w'
                          \<longrightarrow> e = e')"
proof -
  have td: "table_distinct (events st)" using assms by (simp add: maps_distinct_def)
  have "symbols_unique st \<longleftrightarrow>
        (\<forall>e i w. (\<exists>m. (e, m) \<in> set (events st) \<and> (i, w) \<in> set m) \<longrightarrow>
           (\<forall>e' i' w'. (\<exists>m. (e', m) \<in> set (events st) \<and> (i', w') \<in> set m) \<longrightarrow> i = i' \<longrightarrow> e = e'))"
    unfolding symbols_unique_def by fastforce
  then show ?thesis
    unfolding table_entry_iff[OF td] lookup_events_def by blast
qed


lemma pool_inv_iff:
  "pool_inv live st \<longleftrightarrow>
     maps_distinct st
     \<and> (\<forall>e i w. lookup_events st e i = Some w \<longrightarrow> i < nextSymbol st)
     \<and> (\<forall>e e' i w w'. lookup_events st e i = Some w \<longrightarrow> lookup_events st e' i = Some w'
            \<longrightarrow> e = e')
     \<and> (\<forall>e i w. lookup_events st e i = Some w \<longrightarrow> scoped (nextClosure st) e (target w))
     \<and> (\<forall>e h i. lookup_handlerMap st e h = Some i \<longrightarrow> live h
            \<longrightarrow> lookup_events st e i = Some (WeakRef h))
     \<and> (\<forall>e i w. lookup_events st e i = Some w \<longrightarrow> live (target w) \<and> is_wrapper (target w)
            \<longrightarrow> lookup_handlerMap st e (target w) = Some i)"
proof (cases "maps_distinct st")
  case True
  show ?thesis
    unfolding pool_inv_def symbols_fresh_iff[OF True] symbols_unique_iff[OF True]
      handlers_scoped_iff[OF True] reverse_sound_iff[OF True] wrappers_indexed_iff[OF True]
    by (rule refl)
next
  case False
  then show ?thesis by (simp add: pool_inv_def)
qed

lemma pool_invD:
  assumes "pool_inv live st"
  shows "maps_distinct st"
    and "\<And>e i w. lookup_events st e i = Some w \<Longrightarrow> i < nextSymbol st"
    and "\<And>e e' i w w'. lookup_events st e i = Some w \<Longrightarrow> lookup_events st e' i = Some w' \<Longrightarrow> e = e'"
    and "\<And>e i w. lookup_events st e i = Some w \<Longrightarrow> scoped (nextClosure st) e (target w)"
    and "\<And>e h i. lookup_handlerMap st e h = Some i \<Longrightarrow> live h \<Longrightarrow> lookup_events st e i = Some (WeakRef h)"
    and "\<And>e i w. lookup_events st e i = Some w \<Longrightarrow> live (target w) \<Longrightarrow> is_wrapper (target w)
            \<Longrightarrow> lookup_handlerMap st e (target w) = Some i"
  using assms unfolding pool_inv_iff by blast+

lemma pool_invI:
  assumes "maps_distinct st"
    and "\<And>e i w. lookup_events st e i = Some w \<Longrightarrow> i < nextSymbol st"
    and "\<And>e e' i w w'. lookup_events st e i = Some w \<Longrightarrow> lookup_events st e' i = Some w' \<Longrightarrow> e = e'"
    and "\<And>e i w. lookup_events st e i = Some w \<Longrightarrow> scoped (nextClosure st) e (target w)"
    and "\<And>e h i. lookup_handlerMap st e h = Some i \<Longrightarrow> live h \<Longrightarrow> lookup_events st e i = Some (WeakRef h)"
    and "\<And>e i w. lookup_events st e i = Some w \<Longrightarrow> live (target w) \<Longrightarrow> is_wrapper (target w)
            \<Longrightarrow> lookup_handlerMap st e (target w) = Some i"
  shows "pool_inv live st"
  unfolding pool_inv_iff using assms by blast

text \<open>A transition that only removes entries keeps the invariant when it removes a
  subscription entry together with the live reverse entries that point at it, and the
  reverse entry of a live closure together with its subscription entry.\<close>

lemma pool_inv_shrink:
  assumes inv: "pool_inv live st"
    and md: "maps_distinct st'"
    and ns: "nextSymbol st' = nextSymbol st" and nc: "nextClosure st' = nextClosure st"
    and ev: "\<And>e i w. lookup_events st' e i = Some w \<Longrightarrow> lookup_events st e i = Some w"
    and hm: "\<And>e h i. lookup_handlerMap st' e h = Some i \<Longrightarrow> lookup_handlerMap st e h = Some i"
    and rs: "\<And>e h i. live h \<Longrightarrow> lookup_handlerMap st' e h = Some i \<Longrightarrow> lookup_events st' e i \<noteq> None"
    and wi: "\<And>e i h. live h \<Longrightarrow> is_wrapper h \<Longrightarrow> lookup_events st' e i = Some (WeakRef h)
                \<Longrightarrow> lookup_handlerMap st' e h \<noteq> None"
  shows "pool_inv live st'"
proof (rule pool_invI)
  show "maps_distinct st'" by (rule md)
next
  fix e i w assume "lookup_events st' e i = Some w"
  then show "i < nextSymbol st'" using pool_invD(2)[OF inv] ev ns by metis
next
  fix e e' i w w' assume "lookup_events st' e i = Some w" "lookup_events st' e' i = Some w'"
  then show "e = e'" using pool_invD(3)[OF inv] ev by metis
next
  fix e i w assume "lookup_events st' e i = Some w"
  then show "scoped (nextClosure st') e (target w)" using pool_invD(4)[OF inv] ev nc by metis
next
  fix e h i assume a: "lookup_handlerMap st' e h = Some i" "live h"
  then have "lookup_events st e i = Some (WeakRef h)" using pool_invD(5)[OF inv] hm by metis
  moreover obtain w where "lookup_events st' e i = Some w" using rs[OF a(2) a(1)] by auto
  ultimately show "lookup_events st' e i = Some (WeakRef h)" using ev by fastforce
next
  fix e i w assume a: "lookup_events st' e i = Some w" "live (target w)" "is_wrapper (target w)"
  then have "lookup_handlerMap st e (target w) = Some i" using pool_invD(6)[OF inv] ev by metis
  moreover have "w = WeakRef (target w)" by (cases w) simp
  then obtain j where "lookup_handlerMap st' e (target w) = Some j"
    using wi[OF a(2) a(3), of e i] a(1) by auto
  ultimately show "lookup_handlerMap st' e (target w) = Some i" using hm by fastforce
qed

lemma forward_sound_shrink:
  assumes md: "maps_distinct st" "maps_distinct st'"
    and fs: "forward_sound live st"
    and ev: "\<And>e i w. lookup_events st' e i = Some w \<Longrightarrow> lookup_events st e i = Some w"
    and hm: "\<And>e h i. lookup_handlerMap st' e h = Some i \<Longrightarrow> lookup_handlerMap st e h = Some i"
    and fw: "\<And>e i h. live h \<Longrightarrow> lookup_events st' e i = Some (WeakRef h)
                \<Longrightarrow> lookup_handlerMap st' e h \<noteq> None"
  shows "forward_sound live st'"
  unfolding forward_sound_iff[OF md(2)]
proof (intro allI impI)
  fix e i w assume a: "lookup_events st' e i = Some w" "live (target w)"
  have "lookup_handlerMap st e (target w) = Some i"
    using fs a ev unfolding forward_sound_iff[OF md(1)] by metis
  moreover have "w = WeakRef (target w)" by (cases w) simp
  then obtain j where "lookup_handlerMap st' e (target w) = Some j"
    using fw[OF a(2), of e i] a(1) by auto
  ultimately show "lookup_handlerMap st' e (target w) = Some i" using hm by fastforce
qed

section \<open>Effect of removal by identifier and of bulk removal\<close>

lemma find_SomeD:
  "find P al = Some p \<Longrightarrow> p \<in> set al \<and> P p"
  by (induction al) (auto split: if_splits)

lemma find_NoneD:
  "find P al = None \<Longrightarrow> p \<in> set al \<Longrightarrow> \<not> P p"
  by (induction al) (auto split: if_splits)

lemma offById_none:
  assumes "find (\<lambda>(event, eventMap). map_of eventMap i \<noteq> None) (events st) = None"
  shows "offById live i st = st" and "lookup_events st e i = None"
proof -
  show "offById live i st = st" using assms by (simp only: offById_def option.case)
  show "lookup_events st e i = None"
  proof (cases "map_of (events st) e")
    case None
    then show ?thesis by (simp add: lookup_events_def)
  next
    case (Some m)
    then have "(e, m) \<in> set (events st)" by (rule map_of_SomeD)
    from find_NoneD[OF assms this] have "map_of m i = None" by simp
    with Some show ?thesis by (simp add: lookup_events_def)
  qed
qed

lemma offById_found:
  assumes md: "maps_distinct st"
    and f: "find (\<lambda>(event, eventMap). map_of eventMap i \<noteq> None) (events st) = Some (e, m)"
  shows "\<exists>w. lookup_events st e i = Some w
          \<and> (\<forall>e' i'. lookup_events (offById live i st) e' i'
                = (if e' = e \<and> i' = i then None else lookup_events st e' i'))
          \<and> (\<forall>e' h. lookup_handlerMap (offById live i st) e' h
                = (if e' = e \<and> w = WeakRef h \<and> live h then None else lookup_handlerMap st e' h))"
    and "maps_distinct (offById live i st)"
    and "nextSymbol (offById live i st) = nextSymbol st"
    and "nextClosure (offById live i st) = nextClosure st"
    and "calls (offById live i st) = calls st"
proof -
  from find_SomeD[OF f] have mem: "(e, m) \<in> set (events st)" and has: "map_of m i \<noteq> None"
    by auto
  from md mem have lk: "map_of (events st) e = Some m"
    by (simp add: maps_distinct_def table_distinct_def)
  from has obtain w where w: "map_of m i = Some w" by auto
  obtain h where wh: "w = WeakRef h" by (cases w)
  have unf: "offById live i st =
      st\<lparr>events := AList.update e (AList.delete i m) (events st),
         handlerMap := (case Option.bind (map_of m i) (deref live) of
                    None \<Rightarrow> handlerMap st
                  | Some handler \<Rightarrow>
                      (case map_of (handlerMap st) e of
                         None \<Rightarrow> handlerMap st
                       | Some hMap \<Rightarrow>
                           AList.update e (AList.delete handler hMap) (handlerMap st)))\<rparr>"
    unfolding offById_def f by (simp only: option.case prod.case Let_def)
  have evs: "events (offById live i st) = AList.update e (AList.delete i m) (events st)"
    by (simp add: unf)
  have hms: "handlerMap (offById live i st) =
      (if live h then
         (case map_of (handlerMap st) e of None \<Rightarrow> handlerMap st
          | Some hMap \<Rightarrow> AList.update e (AList.delete h hMap) (handlerMap st))
       else handlerMap st)"
    by (simp add: unf w wh)
  have 1: "lookup_events st e i = Some w" by (simp add: lookup_events_def lk w)
  have 2: "\<forall>e' i'. lookup_events (offById live i st) e' i'
                = (if e' = e \<and> i' = i then None else lookup_events st e' i')"
    by (auto simp: lookup_events_def evs update_conv' delete_conv' lk)
  have 3: "\<forall>e' h'. lookup_handlerMap (offById live i st) e' h'
                = (if e' = e \<and> w = WeakRef h' \<and> live h' then None else lookup_handlerMap st e' h')"
    by (auto simp: lookup_handlerMap_def hms wh update_conv' delete_conv' split: option.splits)
  from 1 2 3 show "\<exists>w. lookup_events st e i = Some w
          \<and> (\<forall>e' i'. lookup_events (offById live i st) e' i'
                = (if e' = e \<and> i' = i then None else lookup_events st e' i'))
          \<and> (\<forall>e' h. lookup_handlerMap (offById live i st) e' h
                = (if e' = e \<and> w = WeakRef h \<and> live h then None else lookup_handlerMap st e' h))"
    by blast
  have "table_distinct (events (offById live i st))"
    unfolding evs using md lk by (simp add: maps_distinct_def table_distinct_set_inner)
  moreover have "table_distinct (handlerMap (offById live i st))"
    unfolding hms using md
    by (auto simp: maps_distinct_def table_distinct_set_inner split: option.splits)
  ultimately show "maps_distinct (offById live i st)" by (simp add: maps_distinct_def)
  show "nextSymbol (offById live i st) = nextSymbol st"
       "nextClosure (offById live i st) = nextClosure st"
       "calls (offById live i st) = calls st"
    by (simp_all add: unf)
qed

lemma removeAllListeners_lookup:
  "lookup_events (removeAllListeners event st) e i
     = (if e = event then None else lookup_events st e i)"
  "lookup_handlerMap (removeAllListeners event st) e h
     = (if e = event then None else lookup_handlerMap st e h)"
  by (auto simp: removeAllListeners_def lookup_events_def lookup_handlerMap_def delete_conv')

lemma removeAllListeners_maps_distinct:
  "maps_distinct st \<Longrightarrow> maps_distinct (removeAllListeners event st)"
  by (simp add: maps_distinct_def removeAllListeners_def table_distinct_delete)

lemma removeAll_lookup:
  "lookup_events (removeAll_pool st) e i = None"
  "lookup_handlerMap (removeAll_pool st) e h = None"
  by (auto simp: removeAll_pool_def lookup_events_def lookup_handlerMap_def)

lemma removeAll_maps_distinct: "maps_distinct (removeAll_pool st)"
  by (simp add: maps_distinct_def removeAll_pool_def table_distinct_def)

section \<open>One round of the purge loop and its fold\<close>

lemma purge_fst: "fst (purge d (em, hm)) = AList.delete d em"
  by (simp add: purge_def)

lemma purge_snd_cases:
  "snd (purge d (em, hm)) = hm
   \<or> (\<exists>h0. (h0, d) \<in> set hm \<and> snd (purge d (em, hm)) = AList.delete h0 hm)"
proof (cases "find (\<lambda>(handler, sid). sid = d) hm")
  case None
  then show ?thesis by (simp add: purge_def)
next
  case (Some p)
  obtain h0 s where p: "p = (h0, s)" by (cases p)
  from find_SomeD[OF Some] p have "(h0, d) \<in> set hm" by auto
  moreover have "snd (purge d (em, hm)) = AList.delete h0 hm"
    by (simp add: purge_def Some p)
  ultimately show ?thesis by blast
qed

lemma purge_snd_sub:
  "map_of (snd (purge d (em, hm))) h = Some j \<Longrightarrow> map_of hm h = Some j"
  using purge_snd_cases[of d em hm]
  by (auto simp: delete_conv' split: if_splits)

lemma purge_snd_keep:
  assumes "distinct (map fst hm)" "map_of hm h = Some j" "j \<noteq> d"
  shows "map_of (snd (purge d (em, hm))) h = Some j"
proof -
  from purge_snd_cases[of d em hm] show ?thesis
  proof
    assume "snd (purge d (em, hm)) = hm" then show ?thesis using assms by simp
  next
    assume "\<exists>h0. (h0, d) \<in> set hm \<and> snd (purge d (em, hm)) = AList.delete h0 hm"
    then obtain h0 where h0: "(h0, d) \<in> set hm" "snd (purge d (em, hm)) = AList.delete h0 hm"
      by blast
    from assms(1) h0(1) have "map_of hm h0 = Some d" by simp
    with assms(2,3) have "h \<noteq> h0" by auto
    then show ?thesis using h0(2) assms(2) by (simp add: delete_conv')
  qed
qed

lemma purge_snd_distinct:
  "distinct (map fst hm) \<Longrightarrow> distinct (map fst (snd (purge d (em, hm))))"
  using purge_snd_cases[of d em hm] by (auto simp: distinct_delete)

lemma fold_purge_all:
  assumes "distinct (map fst hm)" "distinct (map fst em)"
  shows "(\<forall>i. map_of (fst (fold purge ds (em, hm))) i = (if i \<in> set ds then None else map_of em i))
    \<and> (\<forall>h j. map_of (snd (fold purge ds (em, hm))) h = Some j \<longrightarrow> map_of hm h = Some j)
    \<and> (\<forall>h j. map_of hm h = Some j \<longrightarrow> j \<notin> set ds
           \<longrightarrow> map_of (snd (fold purge ds (em, hm))) h = Some j)
    \<and> distinct (map fst (fst (fold purge ds (em, hm))))
    \<and> distinct (map fst (snd (fold purge ds (em, hm))))"
  using assms
proof (induction ds arbitrary: em hm)
  case Nil
  then show ?case by simp
next
  case (Cons d ds)
  define em1 where "em1 = AList.delete d em"
  define hm1 where "hm1 = snd (purge d (em, hm))"
  have p: "purge d (em, hm) = (em1, hm1)"
    unfolding em1_def hm1_def by (simp add: purge_def)
  have d1: "distinct (map fst hm1)" "distinct (map fst em1)"
    unfolding hm1_def em1_def using Cons.prems
    by (simp_all add: purge_snd_distinct distinct_delete)
  note IH = Cons.IH[OF d1]
  note IH1 = IH[THEN conjunct1, rule_format]
  note IH2 = IH[THEN conjunct2, THEN conjunct1, rule_format]
  note IH3 = IH[THEN conjunct2, THEN conjunct2, THEN conjunct1, rule_format]
  note IH4 = IH[THEN conjunct2, THEN conjunct2, THEN conjunct2, THEN conjunct1]
  note IH5 = IH[THEN conjunct2, THEN conjunct2, THEN conjunct2, THEN conjunct2]
  have f: "fold purge (d # ds) (em, hm) = fold purge ds (em1, hm1)" by (simp add: p)
  have 1: "\<forall>i. map_of (fst (fold purge ds (em1, hm1))) i
             = (if i \<in> set (d # ds) then None else map_of em i)"
  proof -
    have me: "map_of em1 i = (if i = d then None else map_of em i)" for i
      by (simp add: em1_def delete_conv')
    show ?thesis by (simp add: IH1 me)
  qed
  have 2: "\<forall>h j. map_of (snd (fold purge ds (em1, hm1))) h = Some j \<longrightarrow> map_of hm h = Some j"
  proof (intro allI impI)
    fix h j assume "map_of (snd (fold purge ds (em1, hm1))) h = Some j"
    then have "map_of hm1 h = Some j" by (rule IH2)
    then show "map_of hm h = Some j" unfolding hm1_def by (rule purge_snd_sub)
  qed
  have 3: "\<forall>h j. map_of hm h = Some j \<longrightarrow> j \<notin> set (d # ds)
           \<longrightarrow> map_of (snd (fold purge ds (em1, hm1))) h = Some j"
  proof (intro allI impI)
    fix h j assume a: "map_of hm h = Some j" "j \<notin> set (d # ds)"
    from a(2) have jd: "j \<noteq> d" "j \<notin> set ds" by auto
    have "map_of hm1 h = Some j"
      unfolding hm1_def by (rule purge_snd_keep[OF Cons.prems(1) a(1) jd(1)])
    then show "map_of (snd (fold purge ds (em1, hm1))) h = Some j" using jd(2) by (rule IH3)
  qed
  show ?case unfolding f by (intro conjI 1 2 3 IH4 IH5)
qed

lemma deadEventIds_iff:
  assumes "distinct (map fst em)"
  shows "i \<in> set (deadEventIds live em) \<longleftrightarrow> (\<exists>w. map_of em i = Some w \<and> deref live w = None)"
proof
  assume "i \<in> set (deadEventIds live em)"
  then obtain p where p: "p \<in> set em" "fst p = i" "deref live (snd p) = None"
    by (auto simp: deadEventIds_def)
  then have "(i, snd p) \<in> set em" by (cases p) auto
  with assms have "map_of em i = Some (snd p)" by simp
  with p(3) show "\<exists>w. map_of em i = Some w \<and> deref live w = None" by blast
next
  assume "\<exists>w. map_of em i = Some w \<and> deref live w = None"
  then obtain w where w: "map_of em i = Some w" "deref live w = None" by blast
  from map_of_SomeD[OF w(1)] w(2) have "(i, w) \<in> set (filter (\<lambda>(eventId, weakRef). deref live weakRef = None) em)"
    by simp
  then have "fst (i, w) \<in> fst ` set (filter (\<lambda>(eventId, weakRef). deref live weakRef = None) em)"
    by (rule imageI)
  then show "i \<in> set (deadEventIds live em)" by (simp add: deadEventIds_def)
qed

section \<open>Effect of cleaning an event\<close>

lemma clean_skip:
  "map_of (events st) E = None \<or> map_of (handlerMap st) E = None
     \<Longrightarrow> cleanDeadHandlers live E st = st"
  by (auto simp: cleanDeadHandlers_def split: option.splits)

lemma clean_unfold:
  assumes "map_of (events st) E = Some em" "map_of (handlerMap st) E = Some hm"
  shows "cleanDeadHandlers live E st =
     st\<lparr>events := AList.update E (fst (fold purge (deadEventIds live em) (em, hm))) (events st),
        handlerMap := AList.update E (snd (fold purge (deadEventIds live em) (em, hm))) (handlerMap st)\<rparr>"
  by (simp add: cleanDeadHandlers_def assms split: prod.splits)

lemma clean_effect:
  assumes md: "maps_distinct st"
    and em: "map_of (events st) E = Some em" and hm: "map_of (handlerMap st) E = Some hm"
  shows "lookup_events (cleanDeadHandlers live E st) e i
           = (if e = E \<and> dead_at live st E i then None else lookup_events st e i)"
    and "lookup_handlerMap (cleanDeadHandlers live E st) e h = Some j
           \<Longrightarrow> lookup_handlerMap st e h = Some j"
    and "lookup_handlerMap st e h = Some j \<Longrightarrow> \<not> (e = E \<and> dead_at live st E j)
           \<Longrightarrow> lookup_handlerMap (cleanDeadHandlers live E st) e h = Some j"
    and "maps_distinct (cleanDeadHandlers live E st)"
proof -
  have dem: "distinct (map fst em)" and dhm: "distinct (map fst hm)"
    using md em hm by (auto simp: maps_distinct_def dest: table_distinct_lookup)
  note fp = fold_purge_all[OF dhm dem, of "deadEventIds live em"]
  note fp1 = fp[THEN conjunct1, rule_format]
  note fp2 = fp[THEN conjunct2, THEN conjunct1, rule_format]
  note fp3 = fp[THEN conjunct2, THEN conjunct2, THEN conjunct1, rule_format]
  note fp4 = fp[THEN conjunct2, THEN conjunct2, THEN conjunct2, THEN conjunct1]
  note fp5 = fp[THEN conjunct2, THEN conjunct2, THEN conjunct2, THEN conjunct2]
  note unf = clean_unfold[OF em hm, of live]
  have dead: "dead_at live st E i \<longleftrightarrow> i \<in> set (deadEventIds live em)" for i
    by (auto simp: dead_at_def lookup_events_def em deadEventIds_iff[OF dem] split: option.splits)
  show "lookup_events (cleanDeadHandlers live E st) e i
           = (if e = E \<and> dead_at live st E i then None else lookup_events st e i)"
    by (simp add: unf lookup_events_def update_conv' fp1 dead em)
  show "lookup_handlerMap (cleanDeadHandlers live E st) e h = Some j
           \<Longrightarrow> lookup_handlerMap st e h = Some j"
    by (cases "e = E") (auto simp: unf lookup_handlerMap_def update_conv' hm dest: fp2)
  show "lookup_handlerMap st e h = Some j \<Longrightarrow> \<not> (e = E \<and> dead_at live st E j)
           \<Longrightarrow> lookup_handlerMap (cleanDeadHandlers live E st) e h = Some j"
    by (cases "e = E") (auto simp: unf lookup_handlerMap_def update_conv' hm dead intro: fp3)
  show "maps_distinct (cleanDeadHandlers live E st)"
    using md by (simp add: unf maps_distinct_def table_distinct_update fp4 fp5)
qed

lemma clean_counters:
  "nextSymbol (cleanDeadHandlers live E st) = nextSymbol st"
  "nextClosure (cleanDeadHandlers live E st) = nextClosure st"
  "calls (cleanDeadHandlers live E st) = calls st"
  by (simp_all add: cleanDeadHandlers_def split: option.splits prod.splits)

section \<open>The invariant under subscription and removal by handler\<close>

lemma weakref_target: "w = WeakRef h \<longleftrightarrow> target w = h"
  by (cases w) auto

lemma on_pool_inv:
  assumes inv: "pool_inv live st"
    and sc: "scoped (nextClosure st) E H"
    and fresh: "\<And>i. is_wrapper H \<Longrightarrow> lookup_events st E i \<noteq> Some (WeakRef H)"
  shows "pool_inv live (snd (on E H st))"
proof (rule pool_invI)
  note D = pool_invD[OF inv]
  let ?st = "snd (on E H st)"
  show "maps_distinct ?st" using D(1) by (rule on_maps_distinct)
  show "i < nextSymbol ?st" if "lookup_events ?st e i = Some w" for e i w
    using that D(2)[of e i w] by (auto simp: on_lookup_events on_counters split: if_splits)
  show "e = e'" if "lookup_events ?st e i = Some w" "lookup_events ?st e' i = Some w'" for e e' i w w'
    using that D(3)[of e i w e' w'] D(2)[of e i w] D(2)[of e' i w']
    by (auto simp: on_lookup_events split: if_splits)
  show "scoped (nextClosure ?st) e (target w)" if "lookup_events ?st e i = Some w" for e i w
    using that D(4)[of e i w] sc by (auto simp: on_lookup_events on_counters split: if_splits)
  show "lookup_events ?st e i = Some (WeakRef h)" if "lookup_handlerMap ?st e h = Some i" "live h" for e h i
    using that D(5)[of e h i] D(2)[of e i "WeakRef h"]
    by (auto simp: on_lookup_events on_lookup_handlerMap split: if_splits)
  show "lookup_handlerMap ?st e (target w) = Some i"
    if "lookup_events ?st e i = Some w" "live (target w)" "is_wrapper (target w)" for e i w
    using that D(6)[of e i w] fresh[of i]
    by (auto simp: on_lookup_events on_lookup_handlerMap weakref_target split: if_splits)
qed

lemma scoped_mono: "scoped c e h \<Longrightarrow> c \<le> c' \<Longrightarrow> scoped c' e h"
  by (cases h) auto

lemma pool_inv_nextClosure:
  assumes "pool_inv live st" "nextClosure st \<le> c"
  shows "pool_inv live (st\<lparr>nextClosure := c\<rparr>)"
proof (rule pool_invI)
  note D = pool_invD[OF assms(1)]
  let ?st = "st\<lparr>nextClosure := c\<rparr>"
  show "maps_distinct ?st" using D(1) by simp
  show "i < nextSymbol ?st" if "lookup_events ?st e i = Some w" for e i w
    using that D(2)[of e i w] by simp
  show "e = e'" if "lookup_events ?st e i = Some w" "lookup_events ?st e' i = Some w'" for e e' i w w'
    using that D(3)[of e i w e' w'] by simp
  show "scoped (nextClosure ?st) e (target w)" if "lookup_events ?st e i = Some w" for e i w
    using that D(4)[of e i w] assms(2) by (auto intro: scoped_mono)
  show "lookup_events ?st e i = Some (WeakRef h)" if "lookup_handlerMap ?st e h = Some i" "live h" for e h i
    using that D(5)[of e h i] by simp
  show "lookup_handlerMap ?st e (target w) = Some i"
    if "lookup_events ?st e i = Some w" "live (target w)" "is_wrapper (target w)" for e i w
    using that D(6)[of e i w] by simp
qed

lemma pool_inv_calls [simp]: "pool_inv live (st\<lparr>calls := cs\<rparr>) = pool_inv live st"
  unfolding pool_inv_iff by simp

lemma once_pool_inv:
  assumes inv: "pool_inv live st" and pl: "\<not> is_wrapper H"
  shows "pool_inv live (snd (once E H st))"
proof -
  let ?st0 = "st\<lparr>nextClosure := Suc (nextClosure st)\<rparr>"
  let ?W = "OnceHandler (nextClosure st) E H"
  have inv0: "pool_inv live ?st0" using inv by (rule pool_inv_nextClosure) simp
  have sc: "scoped (nextClosure ?st0) E ?W" using pl by simp
  have fresh: "lookup_events ?st0 E i \<noteq> Some (WeakRef ?W)" for i
  proof
    assume "lookup_events ?st0 E i = Some (WeakRef ?W)"
    then have "lookup_events st E i = Some (WeakRef ?W)" by simp
    from pool_invD(4)[OF inv this] show False by simp
  qed
  show ?thesis unfolding once_eq by (rule on_pool_inv[OF inv0 sc fresh])
qed

lemma off_pool_inv:
  assumes inv: "pool_inv live st" and lv: "live H"
  shows "pool_inv live (off E H st)"
proof (rule pool_inv_shrink[OF inv])
  note D = pool_invD[OF inv]
  let ?st = "off E H st"
  show "maps_distinct ?st" using D(1) by (rule off_maps_distinct)
  show "nextSymbol ?st = nextSymbol st" "nextClosure ?st = nextClosure st"
    by (simp_all add: off_counters)
  show "lookup_events st e i = Some w" if "lookup_events ?st e i = Some w" for e i w
    using that by (auto simp: off_lookup_events split: if_splits)
  show "lookup_handlerMap st e h = Some i" if "lookup_handlerMap ?st e h = Some i" for e h i
    using that by (auto simp: off_lookup_handlerMap split: if_splits)
  show "lookup_events ?st e i \<noteq> None" if "live h" "lookup_handlerMap ?st e h = Some i" for e h i
  proof -
    from that(2) have r: "lookup_handlerMap st e h = Some i"
      by (auto simp: off_lookup_handlerMap split: if_splits)
    from D(5)[OF r that(1)] have ev: "lookup_events st e i = Some (WeakRef h)" .
    show ?thesis
    proof (cases "e = E \<and> lookup_handlerMap st E H = Some i")
      case True
      with D(5)[of E H i] lv ev have "h = H" by auto
      moreover from ev True have "map_of (events st) E \<noteq> None"
        by (auto simp: lookup_events_def split: option.splits)
      ultimately show ?thesis using that(2) True by (auto simp: off_lookup_handlerMap)
    next
      case False
      then show ?thesis using ev by (auto simp: off_lookup_events)
    qed
  qed
  show "lookup_handlerMap ?st e h \<noteq> None"
    if "live h" "is_wrapper h" "lookup_events ?st e i = Some (WeakRef h)" for e i h
  proof -
    from that(3) have ev: "lookup_events st e i = Some (WeakRef h)"
      and ne: "\<not> (e = E \<and> lookup_handlerMap st E H = Some i)"
      by (auto simp: off_lookup_events split: if_splits)
    from D(6)[OF ev] that have r: "lookup_handlerMap st e h = Some i" by simp
    with ne have "\<not> (e = E \<and> h = H)" by auto
    then show ?thesis using r by (auto simp: off_lookup_handlerMap)
  qed
qed

section \<open>The invariant under removal by identifier, bulk removal and cleaning\<close>

lemma offById_pool_inv:
  assumes inv: "pool_inv live st"
  shows "pool_inv live (offById live i st)"
proof (cases "find (\<lambda>(event, eventMap). map_of eventMap i \<noteq> None) (events st)")
  case None
  then show ?thesis using inv by (simp add: offById_none(1))
next
  case (Some p)
  obtain E m where p: "p = (E, m)" by (cases p)
  note D = pool_invD[OF inv]
  note F = offById_found[OF D(1) Some[unfolded p], of live]
  from F(1) obtain w0 where
    w0: "lookup_events st E i = Some w0"
    and ev: "\<And>e' i'. lookup_events (offById live i st) e' i'
                = (if e' = E \<and> i' = i then None else lookup_events st e' i')"
    and hm: "\<And>e' h. lookup_handlerMap (offById live i st) e' h
                = (if e' = E \<and> w0 = WeakRef h \<and> live h then None else lookup_handlerMap st e' h)"
    by blast
  let ?st = "offById live i st"
  show ?thesis
  proof (rule pool_inv_shrink[OF inv])
    show "maps_distinct ?st" by (rule F(2))
    show "nextSymbol ?st = nextSymbol st" "nextClosure ?st = nextClosure st"
      by (simp_all add: F)
    show "lookup_events st e j = Some w" if "lookup_events ?st e j = Some w" for e j w
      using that by (auto simp: ev split: if_splits)
    show "lookup_handlerMap st e h = Some j" if "lookup_handlerMap ?st e h = Some j" for e h j
      using that by (auto simp: hm split: if_splits)
    show "lookup_events ?st e j \<noteq> None" if "live h" "lookup_handlerMap ?st e h = Some j" for e h j
    proof -
      from that(2) have r: "lookup_handlerMap st e h = Some j"
        and ne: "\<not> (e = E \<and> w0 = WeakRef h \<and> live h)"
        by (auto simp: hm split: if_splits)
      from D(5)[OF r that(1)] have e1: "lookup_events st e j = Some (WeakRef h)" .
      with ne w0 that(1) have "\<not> (e = E \<and> j = i)" by auto
      then show ?thesis using e1 by (auto simp: ev)
    qed
    show "lookup_handlerMap ?st e h \<noteq> None"
      if "live h" "is_wrapper h" "lookup_events ?st e j = Some (WeakRef h)" for e j h
    proof -
      from that(3) have e1: "lookup_events st e j = Some (WeakRef h)"
        and ne: "\<not> (e = E \<and> j = i)"
        by (auto simp: ev split: if_splits)
      from D(6)[OF e1] that have r: "lookup_handlerMap st e h = Some j" by simp
      have "\<not> (e = E \<and> w0 = WeakRef h \<and> live h)"
      proof
        assume a: "e = E \<and> w0 = WeakRef h \<and> live h"
        with w0 have "lookup_events st E i = Some (WeakRef h)" by simp
        from D(6)[OF this] that have "lookup_handlerMap st E h = Some i" by simp
        with r a ne show False by simp
      qed
      then show ?thesis using r by (auto simp: hm)
    qed
  qed
qed

lemma removeAllListeners_pool_inv:
  assumes inv: "pool_inv live st"
  shows "pool_inv live (removeAllListeners E st)"
proof (rule pool_inv_shrink[OF inv])
  note D = pool_invD[OF inv]
  let ?st = "removeAllListeners E st"
  show "maps_distinct ?st" using D(1) by (rule removeAllListeners_maps_distinct)
  show "nextSymbol ?st = nextSymbol st" "nextClosure ?st = nextClosure st"
    by (simp_all add: removeAllListeners_def)
  show "lookup_events st e i = Some w" if "lookup_events ?st e i = Some w" for e i w
    using that by (auto simp: removeAllListeners_lookup split: if_splits)
  show "lookup_handlerMap st e h = Some i" if "lookup_handlerMap ?st e h = Some i" for e h i
    using that by (auto simp: removeAllListeners_lookup split: if_splits)
  show "lookup_events ?st e i \<noteq> None" if "live h" "lookup_handlerMap ?st e h = Some i" for e h i
    using that D(5)[of e h i] by (auto simp: removeAllListeners_lookup split: if_splits)
  show "lookup_handlerMap ?st e h \<noteq> None"
    if "live h" "is_wrapper h" "lookup_events ?st e i = Some (WeakRef h)" for e i h
    using that D(6)[of e i "WeakRef h"] by (auto simp: removeAllListeners_lookup split: if_splits)
qed

lemma removeAll_pool_inv:
  assumes inv: "pool_inv live st"
  shows "pool_inv live (removeAll_pool st)"
  by (rule pool_inv_shrink[OF inv])
     (simp_all add: removeAll_lookup removeAll_maps_distinct, simp_all add: removeAll_pool_def)

lemma clean_pool_inv:
  assumes inv: "pool_inv live st"
  shows "pool_inv live (cleanDeadHandlers live E st)"
proof (cases "map_of (events st) E = None \<or> map_of (handlerMap st) E = None")
  case True
  then show ?thesis using inv by (simp add: clean_skip)
next
  case False
  then obtain em hm where em: "map_of (events st) E = Some em"
    and hm: "map_of (handlerMap st) E = Some hm" by auto
  note D = pool_invD[OF inv]
  note C = clean_effect[OF D(1) em hm, where live=live]
  let ?st = "cleanDeadHandlers live E st"
  show ?thesis
  proof (rule pool_inv_shrink[OF inv])
    show "maps_distinct ?st" by (rule C(4))
    show "nextSymbol ?st = nextSymbol st" "nextClosure ?st = nextClosure st"
      by (simp_all add: clean_counters)
    show "lookup_events st e j = Some w" if "lookup_events ?st e j = Some w" for e j w
      using that by (auto simp: C(1) split: if_splits)
    show "lookup_handlerMap st e h = Some j" if "lookup_handlerMap ?st e h = Some j" for e h j
      using that by (rule C(2))
    show "lookup_events ?st e j \<noteq> None" if "live h" "lookup_handlerMap ?st e h = Some j" for e h j
    proof -
      from C(2)[OF that(2)] have r: "lookup_handlerMap st e h = Some j" .
      from D(5)[OF r that(1)] have e1: "lookup_events st e j = Some (WeakRef h)" .
      with that(1) have "\<not> dead_at live st e j" by (simp add: dead_at_def)
      then show ?thesis using e1 by (auto simp: C(1))
    qed
    show "lookup_handlerMap ?st e h \<noteq> None"
      if "live h" "is_wrapper h" "lookup_events ?st e j = Some (WeakRef h)" for e j h
    proof -
      from that(3) have e1: "lookup_events st e j = Some (WeakRef h)"
        by (auto simp: C(1) split: if_splits)
      from D(6)[OF e1] that have r: "lookup_handlerMap st e h = Some j" by simp
      from e1 that(1) have "\<not> dead_at live st e j" by (simp add: dead_at_def)
      then have "lookup_handlerMap ?st e h = Some j" using C(3)[OF r] by blast
      then show ?thesis by simp
    qed
  qed
qed

lemma fold_clean_pool_inv:
  "pool_inv live st \<Longrightarrow> pool_inv live (fold (cleanDeadHandlers live) es st)"
  by (induction es arbitrary: st) (simp_all add: clean_pool_inv)

lemma sweep_pool_inv:
  "pool_inv live st \<Longrightarrow> pool_inv live (sweepDeadHandlers live st)"
  by (simp add: sweepDeadHandlers_def fold_clean_pool_inv)

section \<open>Calling a handler that returns, with \<open>invoke_quiet\<close>\<close>

lemma invoke_quiet_calls: "calls (invoke_quiet g x st) = calls st @ trace g x"
  by (induction g arbitrary: st) (simp_all add: off_counters)

lemma invoke_quiet_counters:
  "nextSymbol (invoke_quiet g x st) = nextSymbol st"
  "nextClosure (invoke_quiet g x st) = nextClosure st"
  by (induction g arbitrary: st) (simp_all add: off_counters)

lemma not_wrapper_Fn: "\<not> is_wrapper h \<Longrightarrow> \<exists>n. h = Fn n"
  by (cases h) auto

lemma invoke_quiet_plain:
  assumes "\<not> is_wrapper g"
  shows "invoke_quiet g x st = st\<lparr>calls := calls st @ [(g, x)]\<rparr>"
  using not_wrapper_Fn[OF assms] by auto

lemma invoke_quiet_wrapper:
  assumes "\<not> is_wrapper h"
  shows "invoke_quiet (OnceHandler k e h) x st
           = off e (OnceHandler k e h) (st\<lparr>calls := calls st @ [(OnceHandler k e h, x), (h, x)]\<rparr>)"
  by (simp add: invoke_quiet_plain[OF assms])

lemma invoke_quiet_pool_inv:
  assumes inv: "pool_inv live st" and lv: "live g" and sc: "scoped c E g"
  shows "pool_inv live (invoke_quiet g x st)"
proof (cases g)
  case (Fn n)
  then show ?thesis using inv by simp
next
  case (OnceHandler k e h)
  with sc have pl: "\<not> is_wrapper h" by simp
  show ?thesis unfolding OnceHandler invoke_quiet_wrapper[OF pl]
    using inv lv OnceHandler by (intro off_pool_inv) simp_all
qed

lemma invoke_quiet_lookup:
  assumes sc: "scoped c E g"
  shows "lookup_events (invoke_quiet g x st) e i =
           (if is_wrapper g \<and> e = E \<and> lookup_handlerMap st E g = Some i then None
            else lookup_events st e i)"
    and "lookup_handlerMap (invoke_quiet g x st) e h =
           (if is_wrapper g \<and> e = E \<and> h = g \<and> map_of (events st) E \<noteq> None then None
            else lookup_handlerMap st e h)"
proof -
  show "lookup_events (invoke_quiet g x st) e i =
           (if is_wrapper g \<and> e = E \<and> lookup_handlerMap st E g = Some i then None
            else lookup_events st e i)"
  proof (cases g)
    case (Fn n) then show ?thesis by simp
  next
    case (OnceHandler k e' h')
    with sc have pl: "\<not> is_wrapper h'" and e': "e' = E" by simp_all
    show ?thesis unfolding OnceHandler invoke_quiet_wrapper[OF pl] e'
      by (simp add: off_lookup_events)
  qed
  show "lookup_handlerMap (invoke_quiet g x st) e h =
           (if is_wrapper g \<and> e = E \<and> h = g \<and> map_of (events st) E \<noteq> None then None
            else lookup_handlerMap st e h)"
  proof (cases g)
    case (Fn n) then show ?thesis by simp
  next
    case (OnceHandler k e' h')
    with sc have pl: "\<not> is_wrapper h'" and e': "e' = E" by simp_all
    show ?thesis unfolding OnceHandler invoke_quiet_wrapper[OF pl] e'
      by (auto simp: off_lookup_handlerMap)
  qed
qed

lemma map_filter_cong_set:
  "(\<forall>x \<in> set xs. f x = g x) \<Longrightarrow> List.map_filter f xs = List.map_filter g xs"
  by (induction xs) (auto split: option.splits)

lemma map_filter_deref:
  "List.map_filter (\<lambda>p. deref live (snd p)) em = filter live (map (\<lambda>q. target (snd q)) em)"
proof (induction em)
  case Nil
  then show ?case by simp
next
  case (Cons p em)
  obtain i h where "p = (i, WeakRef h)" by (cases p, case_tac b) auto
  then show ?case using Cons by simp
qed

section \<open>The loop over a snapshot\<close>

lemma emit_loop_quiet_effect:
  assumes "pool_inv live st" "distinct ids"
  shows "pool_inv live (emit_loop_quiet live E x ids st)
     \<and> calls (emit_loop_quiet live E x ids st)
         = calls st @ concat (map (\<lambda>g. trace g x)
             (List.map_filter (\<lambda>i. Option.bind (lookup_events st E i) (deref live)) ids))
     \<and> (\<forall>e i. lookup_events (emit_loop_quiet live E x ids st) e i
           = (if e = E \<and> i \<in> set ids
                 \<and> (\<exists>g. lookup_events st E i = Some (WeakRef g) \<and> live g \<and> is_wrapper g)
              then None else lookup_events st e i))
     \<and> (\<forall>e h. lookup_handlerMap (emit_loop_quiet live E x ids st) e h
           = (if e = E \<and> live h \<and> is_wrapper h
                 \<and> (\<exists>i \<in> set ids. lookup_events st E i = Some (WeakRef h))
              then None else lookup_handlerMap st e h))
     \<and> nextSymbol (emit_loop_quiet live E x ids st) = nextSymbol st
     \<and> nextClosure (emit_loop_quiet live E x ids st) = nextClosure st"
  using assms
proof (induction ids arbitrary: st)
  case Nil
  then show ?case by simp
next
  case (Cons a ids)
  note inv = Cons.prems(1)
  from Cons.prems(2) have dis: "distinct ids" and anotin: "a \<notin> set ids" by simp_all
  note D = pool_invD[OF inv]
  let ?f = "\<lambda>st i. Option.bind (lookup_events st E i) (deref live)"
  show ?case
  proof (cases "Option.bind (lookup_events st E a) (deref live)")
    case None
    have step: "emit_loop_quiet live E x (a # ids) st
                  = (if map_of (events st) E = None then st else emit_loop_quiet live E x ids st)"
      using None by (auto simp: lookup_events_def split: option.splits)
    have nolive: "\<not> (\<exists>g. lookup_events st E a = Some (WeakRef g) \<and> live g)"
      using None by auto
    show ?thesis
    proof (cases "map_of (events st) E")
      case N: None
      then have z: "lookup_events st E i = None" for i by (simp add: lookup_events_def)
      have mf2: "List.map_filter (\<lambda>i. None) ids' = []" for ids' :: "symbol list"
        by (induction ids') simp_all
      show ?thesis using inv N by (simp add: step z mf2)
    next
      case (Some em)
      note IH = Cons.IH[OF inv dis]
      have st: "emit_loop_quiet live E x (a # ids) st = emit_loop_quiet live E x ids st"
        using step Some by simp
      have mf: "List.map_filter (?f st) (a # ids) = List.map_filter (?f st) ids"
        using None by simp
      show ?thesis unfolding st mf using IH nolive by auto
    qed
  next
    case (Some g)
    then obtain w where w: "lookup_events st E a = Some w" and dw: "deref live w = Some g"
      by (auto simp: bind_eq_Some_conv)
    from dw have wg: "w = WeakRef g" and lg: "live g" by (cases w; auto split: if_splits)+
    from w obtain em where em: "map_of (events st) E = Some em" and ema: "map_of em a = Some w"
      by (auto simp: lookup_events_def split: option.splits)
    have sc: "scoped (nextClosure st) E g" using D(4)[OF w] wg by simp
    let ?st' = "invoke_quiet g x st"
    have step: "emit_loop_quiet live E x (a # ids) st = emit_loop_quiet live E x ids ?st'"
      by (simp add: em ema dw)
    have inv': "pool_inv live ?st'" by (rule invoke_quiet_pool_inv[OF inv lg sc])
    have rev: "lookup_handlerMap st E g = Some a" if "is_wrapper g"
      using D(6)[OF w] that lg wg by simp
    have L1: "lookup_events ?st' e i
              = (if is_wrapper g \<and> e = E \<and> i = a then None else lookup_events st e i)" for e i
      unfolding invoke_quiet_lookup(1)[OF sc] using rev by auto
    have L2: "lookup_handlerMap ?st' e h
              = (if is_wrapper g \<and> e = E \<and> h = g then None else lookup_handlerMap st e h)" for e h
      unfolding invoke_quiet_lookup(2)[OF sc] using em by auto
    note IH = Cons.IH[OF inv' dis]
    have same: "\<forall>i \<in> set ids. ?f ?st' i = ?f st i"
      using anotin by (auto simp: L1)
    have mf: "List.map_filter (?f st) (a # ids) = g # List.map_filter (?f ?st') ids"
      using Some map_filter_cong_set[OF same] by simp
    have c1: "pool_inv live (emit_loop_quiet live E x (a # ids) st)"
      unfolding step using IH by blast
    have c2: "calls (emit_loop_quiet live E x (a # ids) st)
         = calls st @ concat (map (\<lambda>g. trace g x) (List.map_filter (?f st) (a # ids)))"
      unfolding step mf using IH by (simp add: invoke_quiet_calls)
    have c3: "lookup_events (emit_loop_quiet live E x (a # ids) st) e i
           = (if e = E \<and> i \<in> set (a # ids)
                 \<and> (\<exists>g. lookup_events st E i = Some (WeakRef g) \<and> live g \<and> is_wrapper g)
              then None else lookup_events st e i)" for e i
    proof (cases "i = a")
      case True
      have "lookup_events (emit_loop_quiet live E x ids ?st') e a = lookup_events ?st' e a"
        using IH anotin by simp
      then show ?thesis unfolding step True using w wg lg by (auto simp: L1)
    next
      case False
      have "lookup_events (emit_loop_quiet live E x ids ?st') e i
           = (if e = E \<and> i \<in> set ids
                 \<and> (\<exists>g. lookup_events ?st' E i = Some (WeakRef g) \<and> live g \<and> is_wrapper g)
              then None else lookup_events ?st' e i)"
        using IH by blast
      then show ?thesis unfolding step using False by (auto simp: L1)
    qed
    have c4: "lookup_handlerMap (emit_loop_quiet live E x (a # ids) st) e h
           = (if e = E \<and> live h \<and> is_wrapper h
                 \<and> (\<exists>i \<in> set (a # ids). lookup_events st E i = Some (WeakRef h))
              then None else lookup_handlerMap st e h)" for e h
    proof -
      have ih: "lookup_handlerMap (emit_loop_quiet live E x ids ?st') e h
           = (if e = E \<and> live h \<and> is_wrapper h
                 \<and> (\<exists>i \<in> set ids. lookup_events ?st' E i = Some (WeakRef h))
              then None else lookup_handlerMap ?st' e h)"
        using IH by blast
      have ex: "(\<exists>i \<in> set ids. lookup_events ?st' E i = Some (WeakRef h))
                \<longleftrightarrow> (\<exists>i \<in> set ids. lookup_events st E i = Some (WeakRef h))"
        using anotin by (auto simp: L1)
      show ?thesis unfolding step ih ex using w wg lg by (auto simp: L2)
    qed
    have c5: "nextSymbol (emit_loop_quiet live E x (a # ids) st) = nextSymbol st"
      "nextClosure (emit_loop_quiet live E x (a # ids) st) = nextClosure st"
      unfolding step using IH by (simp_all add: invoke_quiet_counters)
    show ?thesis using c1 c2 c3 c4 c5 by blast
  qed
qed

section \<open>The rows after cleaning, and the handlers that an emit reaches\<close>

lemma fold_purge_fst:
  "fst (fold purge ds (em, hm)) = filter (\<lambda>p. fst p \<notin> set ds) em"
proof (induction ds arbitrary: em hm)
  case Nil
  then show ?case by simp
next
  case (Cons d ds)
  have p: "purge d (em, hm) = (AList.delete d em, snd (purge d (em, hm)))"
    by (simp add: purge_def)
  have "fold purge (d # ds) (em, hm) = fold purge ds (AList.delete d em, snd (purge d (em, hm)))"
    using p by simp
  moreover have "filter (\<lambda>p. fst p \<notin> set ds) (AList.delete d em)
                 = filter (\<lambda>p. fst p \<notin> set (d # ds)) em"
    by (induction em) auto
  ultimately show ?case by (simp only: Cons.IH)
qed

lemma live_not_dead:
  assumes "distinct (map fst em)" "p \<in> set em" "live (target (snd p))"
  shows "fst p \<notin> set (deadEventIds live em)"
proof
  assume "fst p \<in> set (deadEventIds live em)"
  then obtain w where w: "map_of em (fst p) = Some w" "deref live w = None"
    unfolding deadEventIds_iff[OF assms(1)] by blast
  from assms(1,2) have "map_of em (fst p) = Some (snd p)" by (cases p) simp
  with w assms(3) show False by (cases "snd p") auto
qed

lemma live_targets_filter:
  assumes "distinct (map fst em)"
  shows "filter live (map (\<lambda>q. target (snd q)) (filter (\<lambda>p. fst p \<notin> set (deadEventIds live em)) em))
         = filter live (map (\<lambda>q. target (snd q)) em)"
proof -
  have "filter (\<lambda>p. live (target (snd p))) (filter (\<lambda>p. fst p \<notin> set (deadEventIds live em)) em)
        = filter (\<lambda>p. live (target (snd p))) em"
    unfolding filter_filter
    by (rule filter_cong[OF refl]) (auto dest: live_not_dead[OF assms])
  then show ?thesis by (simp add: filter_map comp_def)
qed

lemma clean_events_row:
  assumes "map_of (events st) E = Some em" "map_of (handlerMap st) E = Some hm"
  shows "map_of (events (cleanDeadHandlers live E st)) E
           = Some (filter (\<lambda>p. fst p \<notin> set (deadEventIds live em)) em)"
  by (simp add: clean_unfold[OF assms] update_conv' fold_purge_fst)

lemma clean_frame:
  "e \<noteq> E \<Longrightarrow> map_of (events (cleanDeadHandlers live E st)) e = map_of (events st) e
     \<and> map_of (handlerMap (cleanDeadHandlers live E st)) e = map_of (handlerMap st) e"
  by (auto simp: cleanDeadHandlers_def update_conv' split: option.splits prod.splits)

lemma live_targets_clean:
  assumes "maps_distinct st"
  shows "live_targets live (cleanDeadHandlers live E' st) E = live_targets live st E"
proof (cases "E = E' \<and> map_of (events st) E' \<noteq> None \<and> map_of (handlerMap st) E' \<noteq> None")
  case True
  then obtain em hm where em: "map_of (events st) E' = Some em"
    and hm: "map_of (handlerMap st) E' = Some hm" by auto
  have dem: "distinct (map fst em)"
    using assms em by (auto simp: maps_distinct_def dest: table_distinct_lookup)
  show ?thesis using True
    by (simp add: live_targets_def clean_events_row[OF em hm] em live_targets_filter[OF dem])
next
  case False
  then consider "E \<noteq> E'" | "map_of (events st) E' = None \<or> map_of (handlerMap st) E' = None"
    by auto
  then show ?thesis
  proof cases
    case 1
    then show ?thesis by (simp add: live_targets_def clean_frame)
  next
    case 2
    then show ?thesis by (simp add: clean_skip)
  qed
qed

lemma map_filter_keys:
  assumes "distinct (map fst em)"
  shows "List.map_filter (\<lambda>i. Option.bind (map_of em i) f) (map fst em)
         = List.map_filter (\<lambda>p. f (snd p)) em"
proof -
  have "List.map_filter (\<lambda>i. Option.bind (map_of em i) f) (map fst em)
        = List.map_filter (\<lambda>p. Option.bind (map_of em (fst p)) f) em"
    by (induction em rule: list.induct[where ?P="\<lambda>xs. List.map_filter (\<lambda>i. Option.bind (map_of em i) f) (map fst xs)
        = List.map_filter (\<lambda>p. Option.bind (map_of em (fst p)) f) xs"]) (auto split: option.splits)
  also have "\<dots> = List.map_filter (\<lambda>p. f (snd p)) em"
  proof (rule map_filter_cong_set, rule ballI)
    fix p assume "p \<in> set em"
    with assms have "map_of em (fst p) = Some (snd p)" by (cases p) simp
    then show "Option.bind (map_of em (fst p)) f = f (snd p)" by simp
  qed
  finally show ?thesis .
qed

lemma loop_targets:
  assumes "maps_distinct st" "map_of (events st) E = Some em"
  shows "List.map_filter (\<lambda>i. Option.bind (lookup_events st E i) (deref live)) (map fst em)
         = live_targets live st E"
proof -
  have dem: "distinct (map fst em)"
    using assms by (auto simp: maps_distinct_def dest: table_distinct_lookup)
  show ?thesis
    using map_filter_keys[OF dem, of "deref live"]
    by (simp add: lookup_events_def assms(2) live_targets_def map_filter_deref)
qed

section \<open>What \<open>emit_quiet\<close> computes\<close>

lemma emit_loop_quiet_full:
  assumes inv: "pool_inv live st" and em: "map_of (events st) E = Some em"
  shows "pool_inv live (emit_loop_quiet live E x (map fst em) st)"
    and "calls (emit_loop_quiet live E x (map fst em) st)
           = calls st @ concat (map (\<lambda>g. trace g x) (live_targets live st E))"
    and "lookup_events (emit_loop_quiet live E x (map fst em) st) e i
           = (if e = E \<and> (\<exists>g. lookup_events st E i = Some (WeakRef g) \<and> live g \<and> is_wrapper g)
              then None else lookup_events st e i)"
    and "lookup_handlerMap (emit_loop_quiet live E x (map fst em) st) e h
           = (if e = E \<and> live h \<and> is_wrapper h
                 \<and> (\<exists>i. lookup_events st E i = Some (WeakRef h))
              then None else lookup_handlerMap st e h)"
    and "nextSymbol (emit_loop_quiet live E x (map fst em) st) = nextSymbol st"
    and "nextClosure (emit_loop_quiet live E x (map fst em) st) = nextClosure st"
proof -
  note D = pool_invD[OF inv]
  have dem: "distinct (map fst em)"
    using D(1) em by (auto simp: maps_distinct_def dest: table_distinct_lookup)
  note L = emit_loop_quiet_effect[OF inv dem, of E x]
  have key: "i \<in> set (map fst em)" if "lookup_events st E i = Some w" for i w
  proof -
    from that have "map_of em i = Some w" by (simp add: lookup_events_def em)
    from map_of_SomeD[OF this] show ?thesis by force
  qed
  show "pool_inv live (emit_loop_quiet live E x (map fst em) st)" using L by blast
  show "calls (emit_loop_quiet live E x (map fst em) st)
           = calls st @ concat (map (\<lambda>g. trace g x) (live_targets live st E))"
    using L[THEN conjunct2, THEN conjunct1] by (simp only: loop_targets[OF D(1) em])
  have "lookup_events (emit_loop_quiet live E x (map fst em) st) e i
           = (if e = E \<and> i \<in> set (map fst em)
                 \<and> (\<exists>g. lookup_events st E i = Some (WeakRef g) \<and> live g \<and> is_wrapper g)
              then None else lookup_events st e i)"
    using L by blast
  then show "lookup_events (emit_loop_quiet live E x (map fst em) st) e i
           = (if e = E \<and> (\<exists>g. lookup_events st E i = Some (WeakRef g) \<and> live g \<and> is_wrapper g)
              then None else lookup_events st e i)"
    using key[of i] by auto
  have "lookup_handlerMap (emit_loop_quiet live E x (map fst em) st) e h
           = (if e = E \<and> live h \<and> is_wrapper h
                 \<and> (\<exists>i \<in> set (map fst em). lookup_events st E i = Some (WeakRef h))
              then None else lookup_handlerMap st e h)"
    using L by blast
  moreover have "(\<exists>i \<in> set (map fst em). lookup_events st E i = Some (WeakRef h))
                 \<longleftrightarrow> (\<exists>i. lookup_events st E i = Some (WeakRef h))"
    using key by blast
  ultimately show "lookup_handlerMap (emit_loop_quiet live E x (map fst em) st) e h
           = (if e = E \<and> live h \<and> is_wrapper h
                 \<and> (\<exists>i. lookup_events st E i = Some (WeakRef h))
              then None else lookup_handlerMap st e h)"
    by simp
  show "nextSymbol (emit_loop_quiet live E x (map fst em) st) = nextSymbol st"
    "nextClosure (emit_loop_quiet live E x (map fst em) st) = nextClosure st"
    using L by blast+
qed

lemma emit_quiet_no_table:
  "map_of (events st) E = None \<Longrightarrow> emit_quiet live E x st = st"
  by (simp add: emit_quiet_def clean_skip)

lemma clean_has_events:
  "map_of (events (cleanDeadHandlers live E st)) e = None \<longleftrightarrow> map_of (events st) e = None"
  by (auto simp: cleanDeadHandlers_def update_conv' split: option.splits prod.splits)

lemma emit_quiet_as_loop:
  assumes "map_of (events st) E = Some em"
  shows "\<exists>em1. map_of (events (cleanDeadHandlers live E st)) E = Some em1
           \<and> emit_quiet live E x st = emit_loop_quiet live E x (map fst em1) (cleanDeadHandlers live E st)"
proof -
  from assms clean_has_events[of live E st E]
  obtain em1 where "map_of (events (cleanDeadHandlers live E st)) E = Some em1" by auto
  then show ?thesis by (simp add: emit_quiet_def)
qed

lemma emit_quiet_pool_inv:
  assumes inv: "pool_inv live st"
  shows "pool_inv live (emit_quiet live E x st)"
proof (cases "map_of (events st) E")
  case None
  then show ?thesis using inv by (simp add: emit_quiet_no_table)
next
  case (Some em)
  from emit_quiet_as_loop[OF Some, of live x] obtain em1 where
    em1: "map_of (events (cleanDeadHandlers live E st)) E = Some em1"
    and e: "emit_quiet live E x st = emit_loop_quiet live E x (map fst em1) (cleanDeadHandlers live E st)"
    by blast
  show ?thesis unfolding e
    by (rule emit_loop_quiet_full(1)[OF clean_pool_inv[OF inv] em1])
qed

lemma emit_quiet_calls:
  assumes inv: "pool_inv live st"
  shows "calls (emit_quiet live E x st)
           = calls st @ concat (map (\<lambda>g. trace g x) (live_targets live st E))"
proof (cases "map_of (events st) E")
  case None
  then show ?thesis by (simp add: emit_quiet_no_table live_targets_def)
next
  case (Some em)
  from emit_quiet_as_loop[OF Some, of live x] obtain em1 where
    em1: "map_of (events (cleanDeadHandlers live E st)) E = Some em1"
    and e: "emit_quiet live E x st = emit_loop_quiet live E x (map fst em1) (cleanDeadHandlers live E st)"
    by blast
  show ?thesis unfolding e emit_loop_quiet_full(2)[OF clean_pool_inv[OF inv] em1]
    by (simp add: clean_counters live_targets_clean[OF pool_invD(1)[OF inv]])
qed

lemma emit_quiet_counters:
  assumes inv: "pool_inv live st"
  shows "nextSymbol (emit_quiet live E x st) = nextSymbol st"
    and "nextClosure (emit_quiet live E x st) = nextClosure st"
proof -
  have "nextSymbol (emit_quiet live E x st) = nextSymbol st \<and> nextClosure (emit_quiet live E x st) = nextClosure st"
  proof (cases "map_of (events st) E")
    case None
    then show ?thesis by (simp add: emit_quiet_no_table)
  next
    case (Some em)
    from emit_quiet_as_loop[OF Some, of live x] obtain em1 where
      em1: "map_of (events (cleanDeadHandlers live E st)) E = Some em1"
      and e: "emit_quiet live E x st = emit_loop_quiet live E x (map fst em1) (cleanDeadHandlers live E st)"
      by blast
    show ?thesis unfolding e
      by (simp add: emit_loop_quiet_full(5,6)[OF clean_pool_inv[OF inv] em1] clean_counters)
  qed
  then show "nextSymbol (emit_quiet live E x st) = nextSymbol st"
    and "nextClosure (emit_quiet live E x st) = nextClosure st" by simp_all
qed

section \<open>The other direction of the agreement\<close>

lemma pool_inv_antimono:
  assumes inv: "pool_inv live st" and sub: "\<forall>h. live' h \<longrightarrow> live h"
  shows "pool_inv live' st"
proof (rule pool_invI)
  note D = pool_invD[OF inv]
  show "maps_distinct st" by (rule D(1))
  show "i < nextSymbol st" if "lookup_events st e i = Some w" for e i w
    using that by (rule D(2))
  show "e = e'" if "lookup_events st e i = Some w" "lookup_events st e' i = Some w'" for e e' i w w'
    using that by (rule D(3))
  show "scoped (nextClosure st) e (target w)" if "lookup_events st e i = Some w" for e i w
    using that by (rule D(4))
  show "lookup_events st e i = Some (WeakRef h)" if "lookup_handlerMap st e h = Some i" "live' h" for e h i
    using that sub D(5) by blast
  show "lookup_handlerMap st e (target w) = Some i"
    if "lookup_events st e i = Some w" "live' (target w)" "is_wrapper (target w)" for e i w
    using that sub D(6) by blast
qed

lemma forward_soundD:
  assumes "maps_distinct st" "forward_sound live st"
    "lookup_events st e i = Some (WeakRef h)" "live h"
  shows "lookup_handlerMap st e h = Some i"
  using assms(2-) unfolding forward_sound_iff[OF assms(1)] by fastforce

lemma forward_soundI:
  assumes "maps_distinct st"
    "\<And>e i h. lookup_events st e i = Some (WeakRef h) \<Longrightarrow> live h \<Longrightarrow> lookup_handlerMap st e h = Some i"
  shows "forward_sound live st"
  unfolding forward_sound_iff[OF assms(1)]
proof (intro allI impI)
  fix e i w assume a: "lookup_events st e i = Some w" "live (target w)"
  have "w = WeakRef (target w)" by (cases w) simp
  with a assms(2)[of e i "target w"] show "lookup_handlerMap st e (target w) = Some i" by simp
qed




lemma forward_sound_nextClosure [simp]:
  "forward_sound live (st\<lparr>nextClosure := c\<rparr>) = forward_sound live st"
  by (simp add: forward_sound_def lookup_handlerMap_def)

lemma forward_sound_calls [simp]:
  "forward_sound live (st\<lparr>calls := c\<rparr>) = forward_sound live st"
  by (simp add: forward_sound_def lookup_handlerMap_def)






lemma clean_forward_sound:
  assumes inv: "pool_inv live st" and fs: "forward_sound live st"
  shows "forward_sound live (cleanDeadHandlers live E st)"
proof (cases "map_of (events st) E = None \<or> map_of (handlerMap st) E = None")
  case True
  then show ?thesis using fs by (simp add: clean_skip)
next
  case False
  then obtain em hm where em: "map_of (events st) E = Some em"
    and hm: "map_of (handlerMap st) E = Some hm" by auto
  note D = pool_invD[OF inv]
  note C = clean_effect[OF D(1) em hm, where live=live]
  show ?thesis
  proof (rule forward_soundI[OF C(4)])
    fix e j h assume a: "lookup_events (cleanDeadHandlers live E st) e j = Some (WeakRef h)" "live h"
    then have old: "lookup_events st e j = Some (WeakRef h)"
      by (auto simp: C(1) split: if_splits)
    from forward_soundD[OF D(1) fs old a(2)] have r: "lookup_handlerMap st e h = Some j" .
    from old a(2) have "\<not> dead_at live st e j" by (simp add: dead_at_def)
    then show "lookup_handlerMap (cleanDeadHandlers live E st) e h = Some j"
      using C(3)[OF r] by blast
  qed
qed



lemma emit_quiet_forward_sound:
  assumes inv: "pool_inv live st" and fs: "forward_sound live st"
  shows "forward_sound live (emit_quiet live E x st)"
proof (cases "map_of (events st) E")
  case None
  then show ?thesis using fs by (simp add: emit_quiet_no_table)
next
  case (Some em)
  let ?st1 = "cleanDeadHandlers live E st"
  from emit_quiet_as_loop[OF Some, of live x] obtain em1 where
    em1: "map_of (events ?st1) E = Some em1"
    and e: "emit_quiet live E x st = emit_loop_quiet live E x (map fst em1) ?st1"
    by blast
  have inv1: "pool_inv live ?st1" by (rule clean_pool_inv[OF inv])
  have fs1: "forward_sound live ?st1" by (rule clean_forward_sound[OF inv fs])
  note L = emit_loop_quiet_full[OF inv1 em1, where x=x]
  show ?thesis unfolding e
  proof (rule forward_soundI[OF pool_invD(1)[OF L(1)]])
    fix e' j h
    assume a: "lookup_events (emit_loop_quiet live E x (map fst em1) ?st1) e' j = Some (WeakRef h)" "live h"
    then have old: "lookup_events ?st1 e' j = Some (WeakRef h)"
      and ne: "\<not> (e' = E \<and> is_wrapper h)"
      by (auto simp: L(3) split: if_splits)
    from forward_soundD[OF pool_invD(1)[OF inv1] fs1 old a(2)]
    show "lookup_handlerMap (emit_loop_quiet live E x (map fst em1) ?st1) e' h = Some j"
      using ne by (auto simp: L(4))
  qed
qed
lemma empty_pool_inv: "pool_inv live empty_pool" "forward_sound live empty_pool"
  by (simp_all add: pool_inv_def empty_pool_def maps_distinct_def table_distinct_def
        symbols_fresh_def symbols_unique_def handlers_scoped_def reverse_sound_def
        wrappers_indexed_def forward_sound_def)

section \<open>The rows of the outer maps\<close>

lemma update_keys_present:
  "map_of al k = Some v \<Longrightarrow> map fst (AList.update k v' al) = map fst al"
  by (induction al) (auto split: if_splits)


lemma update_keys_member:
  "k \<in> fst ` set al \<Longrightarrow> map fst (AList.update k v' al) = map fst al"
  by (simp add: update_keys)

lemma off_keys:
  "map fst (events (off event handler st)) = map fst (events st)
   \<and> map fst (handlerMap (off event handler st)) = map fst (handlerMap st)"
  by (auto simp: off_def update_keys_present split: option.splits)


lemma cleanDeadHandlers_keys:
  "map fst (events (cleanDeadHandlers live event st)) = map fst (events st)
   \<and> map fst (handlerMap (cleanDeadHandlers live event st)) = map fst (handlerMap st)"
  by (auto simp: cleanDeadHandlers_def update_keys_present split: option.splits prod.splits)

lemma fold_clean_keys:
  "map fst (events (fold (cleanDeadHandlers live) es st)) = map fst (events st)
   \<and> map fst (handlerMap (fold (cleanDeadHandlers live) es st)) = map fst (handlerMap st)"
  by (induction es arbitrary: st) (simp_all add: cleanDeadHandlers_keys)

lemma sweepDeadHandlers_keys:
  "map fst (events (sweepDeadHandlers live st)) = map fst (events st)
   \<and> map fst (handlerMap (sweepDeadHandlers live st)) = map fst (handlerMap st)"
  by (simp add: sweepDeadHandlers_def fold_clean_keys)

lemma invoke_quiet_keys:
  "map fst (events (invoke_quiet g args st)) = map fst (events st)
   \<and> map fst (handlerMap (invoke_quiet g args st)) = map fst (handlerMap st)"
  by (induction g arbitrary: st) (simp_all add: off_keys)

lemma emit_loop_quiet_keys:
  "map fst (events (emit_loop_quiet live event args ids st)) = map fst (events st)
   \<and> map fst (handlerMap (emit_loop_quiet live event args ids st)) = map fst (handlerMap st)"
  by (induction ids arbitrary: st) (auto simp: invoke_quiet_keys split: option.splits)

lemma emit_quiet_keys:
  "map fst (events (emit_quiet live event args st)) = map fst (events st)
   \<and> map fst (handlerMap (emit_quiet live event args st)) = map fst (handlerMap st)"
  by (auto simp: emit_quiet_def Let_def emit_loop_quiet_keys cleanDeadHandlers_keys split: option.splits)

section \<open>A symbol that no subscription table holds\<close>

lemma find_None_has:
  "(\<forall>p \<in> set al. map_of (snd p) k = None) \<Longrightarrow>
     find (\<lambda>(event, eventMap). map_of eventMap k \<noteq> None) al = None"
  by (induction al) auto

section \<open>The rows under subscription\<close>




section \<open>The keys of the reverse tables\<close>

lemma on_strong_handler: "handler \<in> set (strong_handlers (snd (on event handler st)))"
proof -
  have "lookup_handlerMap (snd (on event handler st)) event handler = Some (nextSymbol st)"
    by (simp add: on_lookup_handlerMap)
  then obtain hMap where h: "map_of (handlerMap (snd (on event handler st))) event = Some hMap"
    "map_of hMap handler = Some (nextSymbol st)"
    by (auto simp: lookup_handlerMap_def split: option.splits)
  have c: "handler \<in> set (captured handler)" by (cases handler) simp_all
  from map_of_SomeD[OF h(1)] map_of_SomeD[OF h(2)] c show ?thesis
    unfolding strong_handlers_def
    by (auto intro!: bexI[of _ "(event, hMap)"] bexI[of _ "(handler, nextSymbol st)"])
qed

section \<open>A new symbol has no owner\<close>

lemma find_update_fresh:
  "(\<forall>p \<in> set al. \<not> P p) \<Longrightarrow> P (k, v) \<Longrightarrow> find P (AList.update k v al) = Some (k, v)"
  by (induction al) auto

lemma symbols_fresh_no_owner:
  assumes "symbols_fresh st" "p \<in> set (events st)"
  shows "map_of (snd p) (nextSymbol st) = None"
proof (cases "map_of (snd p) (nextSymbol st)")
  case None then show ?thesis .
next
  case (Some w)
  from map_of_SomeD[OF this] assms show ?thesis
    unfolding symbols_fresh_def by fastforce
qed

lemma map_of_update_same: "map_of (AList.update k v al) k = Some v"
  by (simp add: update_conv')

section \<open>The tables of the other events\<close>

lemma map_of_update_other: "k' \<noteq> k \<Longrightarrow> map_of (AList.update k v al) k' = map_of al k'"
  by (simp add: update_conv')

lemma on_frame:
  assumes "e \<noteq> event"
  shows "map_of (events (snd (on event handler st))) e = map_of (events st) e"
    and "map_of (handlerMap (snd (on event handler st))) e = map_of (handlerMap st) e"
  using assms by (auto simp: on_def Let_def update_conv' split: option.splits)

lemma off_frame:
  assumes "e \<noteq> event"
  shows "map_of (events (off event handler st)) e = map_of (events st) e"
    and "map_of (handlerMap (off event handler st)) e = map_of (handlerMap st) e"
  using assms by (auto simp: off_def update_conv' split: option.splits)

lemma removeAllListeners_frame:
  assumes "e \<noteq> event"
  shows "map_of (events (removeAllListeners event st)) e = map_of (events st) e"
    and "map_of (handlerMap (removeAllListeners event st)) e = map_of (handlerMap st) e"
  using assms by (simp_all add: removeAllListeners_def delete_conv')

lemma offById_frame:
  assumes inv: "pool_inv live st" and own: "lookup_events st event i \<noteq> None" and ne: "e \<noteq> event"
  shows "map_of (events (offById live i st)) e = map_of (events st) e"
    and "map_of (handlerMap (offById live i st)) e = map_of (handlerMap st) e"
proof -
  note D = pool_invD[OF inv]
  obtain p where f: "find (\<lambda>(event, eventMap). map_of eventMap i \<noteq> None) (events st) = Some p"
    using own offById_none(2)[of i st event]
    by (cases "find (\<lambda>(event, eventMap). map_of eventMap i \<noteq> None) (events st)") auto
  obtain E m where p: "p = (E, m)" by (cases p)
  from offById_found(1)[OF D(1) f[unfolded p], of live] obtain w where
    "lookup_events st E i = Some w" by blast
  with own D(3) have E: "E = event" by fastforce
  have unf: "offById live i st =
      st\<lparr>events := AList.update E (AList.delete i m) (events st),
         handlerMap := (case Option.bind (map_of m i) (deref live) of
                    None \<Rightarrow> handlerMap st
                  | Some handler \<Rightarrow>
                      (case map_of (handlerMap st) E of
                         None \<Rightarrow> handlerMap st
                       | Some hMap \<Rightarrow>
                           AList.update E (AList.delete handler hMap) (handlerMap st)))\<rparr>"
    unfolding offById_def f p by (simp only: option.case prod.case Let_def)
  show "map_of (events (offById live i st)) e = map_of (events st) e"
    using ne by (simp add: unf E update_conv')
  show "map_of (handlerMap (offById live i st)) e = map_of (handlerMap st) e"
    using ne by (auto simp: unf E update_conv' split: option.splits)
qed

lemma invoke_quiet_frame:
  assumes sc: "scoped c event g" and ne: "e \<noteq> event"
  shows "map_of (events (invoke_quiet g x st)) e = map_of (events st) e
         \<and> map_of (handlerMap (invoke_quiet g x st)) e = map_of (handlerMap st) e"
proof (cases g)
  case (Fn n)
  then show ?thesis by simp
next
  case (OnceHandler k e' h)
  with sc have pl: "\<not> is_wrapper h" and e': "e' = event" by simp_all
  show ?thesis unfolding OnceHandler invoke_quiet_wrapper[OF pl] e'
    using ne by (simp add: off_frame)
qed

lemma emit_loop_quiet_frame:
  assumes "pool_inv live st" "e \<noteq> event"
  shows "map_of (events (emit_loop_quiet live event x ids st)) e = map_of (events st) e
         \<and> map_of (handlerMap (emit_loop_quiet live event x ids st)) e = map_of (handlerMap st) e"
  using assms(1)
proof (induction ids arbitrary: st)
  case Nil
  then show ?case by simp
next
  case (Cons a ids)
  note inv = Cons.prems
  show ?case
  proof (cases "Option.bind (lookup_events st event a) (deref live)")
    case None
    then have "emit_loop_quiet live event x (a # ids) st
                  = (if map_of (events st) event = None then st else emit_loop_quiet live event x ids st)"
      by (auto simp: lookup_events_def split: option.splits)
    then show ?thesis using Cons.IH[OF inv] by simp
  next
    case (Some g)
    then obtain w where w: "lookup_events st event a = Some w" and dw: "deref live w = Some g"
      by (auto simp: bind_eq_Some_conv)
    from dw have wg: "w = WeakRef g" and lg: "live g" by (cases w; auto split: if_splits)+
    from w obtain em where em: "map_of (events st) event = Some em" and ema: "map_of em a = Some w"
      by (auto simp: lookup_events_def split: option.splits)
    have sc: "scoped (nextClosure st) event g" using pool_invD(4)[OF inv w] wg by simp
    have step: "emit_loop_quiet live event x (a # ids) st = emit_loop_quiet live event x ids (invoke_quiet g x st)"
      by (simp add: em ema dw)
    show ?thesis unfolding step
      using Cons.IH[OF invoke_quiet_pool_inv[OF inv lg sc]] invoke_quiet_frame[OF sc assms(2), of x st]
      by simp
  qed
qed

lemma emit_quiet_frame:
  assumes inv: "pool_inv live st" and ne: "e \<noteq> event"
  shows "map_of (events (emit_quiet live event x st)) e = map_of (events st) e"
    and "map_of (handlerMap (emit_quiet live event x st)) e = map_of (handlerMap st) e"
proof -
  have "map_of (events (emit_quiet live event x st)) e = map_of (events st) e
        \<and> map_of (handlerMap (emit_quiet live event x st)) e = map_of (handlerMap st) e"
  proof (cases "map_of (events st) event")
    case None
    then show ?thesis by (simp add: emit_quiet_no_table)
  next
    case (Some em)
    from emit_quiet_as_loop[OF Some, of live x] obtain em1 where
      em1: "map_of (events (cleanDeadHandlers live event st)) event = Some em1"
      and e: "emit_quiet live event x st
            = emit_loop_quiet live event x (map fst em1) (cleanDeadHandlers live event st)"
      by blast
    show ?thesis unfolding e
      using emit_loop_quiet_frame[OF clean_pool_inv[OF inv] ne] clean_frame[OF ne] by simp
  qed
  then show "map_of (events (emit_quiet live event x st)) e = map_of (events st) e"
    and "map_of (handlerMap (emit_quiet live event x st)) e = map_of (handlerMap st) e" by simp_all
qed

section \<open>Cleaning twice, and what cleaning keeps\<close>

lemma clean_fixed:
  assumes "map_of (events st) E = None \<or> map_of (handlerMap st) E = None
           \<or> (\<exists>em. map_of (events st) E = Some em \<and> deadEventIds live em = [])"
  shows "cleanDeadHandlers live E st = st"
proof (cases "map_of (events st) E = None \<or> map_of (handlerMap st) E = None")
  case True
  then show ?thesis by (rule clean_skip)
next
  case False
  with assms obtain em hm where em: "map_of (events st) E = Some em"
    and d: "deadEventIds live em = []" and hm: "map_of (handlerMap st) E = Some hm" by auto
  show ?thesis
    by (simp add: clean_unfold[OF em hm] d update_triv[OF em] update_triv[OF hm])
qed

lemma dead_after_filter:
  "deadEventIds live (filter (\<lambda>p. fst p \<notin> set (deadEventIds live em)) em) = []"
  by (auto simp: deadEventIds_def filter_empty_conv)

lemma clean_makes_done:
  "map_of (events (cleanDeadHandlers live E st)) E = None
   \<or> map_of (handlerMap (cleanDeadHandlers live E st)) E = None
   \<or> (\<exists>em. map_of (events (cleanDeadHandlers live E st)) E = Some em \<and> deadEventIds live em = [])"
proof (cases "map_of (events st) E = None \<or> map_of (handlerMap st) E = None")
  case True
  then show ?thesis by (auto simp: clean_skip)
next
  case False
  then obtain em hm where em: "map_of (events st) E = Some em"
    and hm: "map_of (handlerMap st) E = Some hm" by auto
  show ?thesis by (simp add: clean_events_row[OF em hm] dead_after_filter)
qed

lemma clean_keeps_done:
  assumes "map_of (events st) E = None \<or> map_of (handlerMap st) E = None
           \<or> (\<exists>em. map_of (events st) E = Some em \<and> deadEventIds live em = [])"
  shows "map_of (events (cleanDeadHandlers live E' st)) E = None
   \<or> map_of (handlerMap (cleanDeadHandlers live E' st)) E = None
   \<or> (\<exists>em. map_of (events (cleanDeadHandlers live E' st)) E = Some em \<and> deadEventIds live em = [])"
proof (cases "E = E'")
  case True
  then show ?thesis using assms clean_fixed[OF assms] by simp
next
  case False
  then show ?thesis using assms clean_frame[OF False, of live st] by simp
qed

lemma fold_clean_keeps_done:
  assumes "map_of (events st) E = None \<or> map_of (handlerMap st) E = None
           \<or> (\<exists>em. map_of (events st) E = Some em \<and> deadEventIds live em = [])"
  shows "map_of (events (fold (cleanDeadHandlers live) es st)) E = None
   \<or> map_of (handlerMap (fold (cleanDeadHandlers live) es st)) E = None
   \<or> (\<exists>em. map_of (events (fold (cleanDeadHandlers live) es st)) E = Some em
          \<and> deadEventIds live em = [])"
  using assms
proof (induction es arbitrary: st)
  case Nil
  then show ?case by simp
next
  case (Cons a es)
  show ?case unfolding fold_simps by (rule Cons.IH[OF clean_keeps_done[OF Cons.prems]])
qed

lemma fold_clean_done:
  assumes "E \<in> set es"
  shows "map_of (events (fold (cleanDeadHandlers live) es st)) E = None
   \<or> map_of (handlerMap (fold (cleanDeadHandlers live) es st)) E = None
   \<or> (\<exists>em. map_of (events (fold (cleanDeadHandlers live) es st)) E = Some em
          \<and> deadEventIds live em = [])"
  using assms
proof (induction es arbitrary: st)
  case Nil
  then show ?case by simp
next
  case (Cons a es)
  show ?case
  proof (cases "E = a")
    case True
    show ?thesis unfolding fold_simps True
      by (rule fold_clean_keeps_done[OF clean_makes_done])
  next
    case False
    with Cons.prems have "E \<in> set es" by simp
    from Cons.IH[OF this] show ?thesis by simp
  qed
qed

lemma fold_clean_fixed:
  assumes "\<forall>E \<in> set es. map_of (events st) E = None \<or> map_of (handlerMap st) E = None
           \<or> (\<exists>em. map_of (events st) E = Some em \<and> deadEventIds live em = [])"
  shows "fold (cleanDeadHandlers live) es st = st"
  using assms
proof (induction es)
  case Nil
  then show ?case by simp
next
  case (Cons a es)
  then have "cleanDeadHandlers live a st = st" by (intro clean_fixed) simp
  with Cons show ?case by simp
qed

lemma sweep_idempotent:
  "sweepDeadHandlers live (sweepDeadHandlers live st) = sweepDeadHandlers live st"
proof -
  have k: "map fst (events (sweepDeadHandlers live st)) = map fst (events st)"
    using sweepDeadHandlers_keys[of live st] by simp
  have "fold (cleanDeadHandlers live) (map fst (events st)) (sweepDeadHandlers live st)
          = sweepDeadHandlers live st"
  proof (rule fold_clean_fixed, rule ballI)
    fix E assume "E \<in> set (map fst (events st))"
    from fold_clean_done[OF this, of live st]
    show "map_of (events (sweepDeadHandlers live st)) E = None
       \<or> map_of (handlerMap (sweepDeadHandlers live st)) E = None
       \<or> (\<exists>em. map_of (events (sweepDeadHandlers live st)) E = Some em \<and> deadEventIds live em = [])"
      by (simp add: sweepDeadHandlers_def)
  qed
  then show ?thesis
    unfolding sweepDeadHandlers_def[of live "sweepDeadHandlers live st"] k .
qed

lemma clean_keeps_live:
  assumes inv: "pool_inv live st"
  shows "lookup_events st e i = Some w \<Longrightarrow> deref live w \<noteq> None
           \<Longrightarrow> lookup_events (cleanDeadHandlers live E st) e i = Some w"
    and "lookup_handlerMap st e h = Some i \<Longrightarrow> live h
           \<Longrightarrow> lookup_handlerMap (cleanDeadHandlers live E st) e h = Some i"
proof -
  note D = pool_invD[OF inv]
  show "lookup_events (cleanDeadHandlers live E st) e i = Some w"
    if a: "lookup_events st e i = Some w" "deref live w \<noteq> None"
  proof (cases "map_of (events st) E = None \<or> map_of (handlerMap st) E = None")
    case True
    then show ?thesis using a by (simp add: clean_skip)
  next
    case False
    then obtain em hm where em: "map_of (events st) E = Some em"
      and hm: "map_of (handlerMap st) E = Some hm" by auto
    from a have "\<not> dead_at live st e i" by (simp add: dead_at_def)
    then show ?thesis using a by (auto simp: clean_effect(1)[OF D(1) em hm])
  qed
  show "lookup_handlerMap (cleanDeadHandlers live E st) e h = Some i"
    if a: "lookup_handlerMap st e h = Some i" "live h"
  proof (cases "map_of (events st) E = None \<or> map_of (handlerMap st) E = None")
    case True
    then show ?thesis using a by (simp add: clean_skip)
  next
    case False
    then obtain em hm where em: "map_of (events st) E = Some em"
      and hm: "map_of (handlerMap st) E = Some hm" by auto
    from D(5)[OF a] a(2) have "\<not> dead_at live st e i" by (simp add: dead_at_def)
    then show ?thesis using clean_effect(3)[OF D(1) em hm a(1), where live=live] by blast
  qed
qed

lemma fold_clean_keeps_live:
  assumes inv: "pool_inv live st"
  shows "(lookup_events st e i = Some w \<longrightarrow> deref live w \<noteq> None
           \<longrightarrow> lookup_events (fold (cleanDeadHandlers live) es st) e i = Some w)
       \<and> (lookup_handlerMap st e h = Some j \<longrightarrow> live h
           \<longrightarrow> lookup_handlerMap (fold (cleanDeadHandlers live) es st) e h = Some j)"
  using inv
proof (induction es arbitrary: st)
  case Nil
  then show ?case by simp
next
  case (Cons a es)
  have inv1: "pool_inv live (cleanDeadHandlers live a st)"
    by (rule clean_pool_inv[OF Cons.prems])
  note IH = Cons.IH[OF inv1]
  show ?case
  proof (intro conjI impI)
    assume "lookup_events st e i = Some w" "deref live w \<noteq> None"
    then have "lookup_events (cleanDeadHandlers live a st) e i = Some w"
      by (rule clean_keeps_live(1)[OF Cons.prems])
    with IH \<open>deref live w \<noteq> None\<close>
    show "lookup_events (fold (cleanDeadHandlers live) (a # es) st) e i = Some w" by simp
  next
    assume "lookup_handlerMap st e h = Some j" "live h"
    then have "lookup_handlerMap (cleanDeadHandlers live a st) e h = Some j"
      by (rule clean_keeps_live(2)[OF Cons.prems])
    with IH \<open>live h\<close>
    show "lookup_handlerMap (fold (cleanDeadHandlers live) (a # es) st) e h = Some j" by simp
  qed
qed

section \<open>The calls of a handler among the calls of an emit\<close>

lemma calls_of_append [simp]: "calls_of h (xs @ ys) = calls_of h xs @ calls_of h ys"
  by (simp add: calls_of_def)

lemma calls_of_Nil [simp]: "calls_of h [] = []"
  by (simp add: calls_of_def)

lemma trace_handlers: "fst ` set (trace g x) = set (captured g)"
  by (induction g) auto

lemma calls_of_trace_none:
  assumes "h \<notin> set (captured g)"
  shows "calls_of h (trace g x) = []"
  using assms trace_handlers[of g x] by (auto simp: calls_of_def filter_empty_conv)

lemma calls_of_traces_none:
  assumes "\<forall>g \<in> set gs. h \<notin> set (captured g)"
  shows "calls_of h (concat (map (\<lambda>g. trace g x) gs)) = []"
  using assms by (induction gs) (simp_all add: calls_of_trace_none)


lemma calls_of_trace_wrapper:
  assumes "\<not> is_wrapper h"
  shows "calls_of (OnceHandler k e h) (trace (OnceHandler k e h) x) = [(OnceHandler k e h, x)]"
    and "calls_of h (trace (OnceHandler k e h) x) = [(h, x)]"
  using assms by (cases h; simp add: calls_of_def)+

lemma captured_self: "g \<in> set (captured g)"
  by (cases g) simp_all

lemma event_handlers_iff:
  assumes "maps_distinct st"
  shows "h \<in> set (event_handlers st E)
         \<longleftrightarrow> (\<exists>i w. lookup_events st E i = Some w \<and> h \<in> set (captured (target w)))"
proof (cases "map_of (events st) E")
  case None
  then show ?thesis by (simp add: event_handlers_def lookup_events_def)
next
  case (Some em)
  have dem: "distinct (map fst em)"
    using assms Some by (auto simp: maps_distinct_def dest: table_distinct_lookup)
  have "h \<in> set (event_handlers st E) \<longleftrightarrow> (\<exists>q \<in> set em. h \<in> set (captured (target (snd q))))"
    by (simp add: event_handlers_def Some)
  also have "\<dots> \<longleftrightarrow> (\<exists>i w. (i, w) \<in> set em \<and> h \<in> set (captured (target w)))"
    by force
  also have "\<dots> \<longleftrightarrow> (\<exists>i w. map_of em i = Some w \<and> h \<in> set (captured (target w)))"
    using dem by simp
  finally show ?thesis by (simp add: lookup_events_def Some)
qed

lemma live_targets_sub:
  assumes "g \<in> set (live_targets live st E)"
  shows "set (captured g) \<subseteq> set (event_handlers st E)"
proof (cases "map_of (events st) E")
  case None
  with assms show ?thesis by (simp add: live_targets_def)
next
  case (Some em)
  with assms obtain q where "q \<in> set em" "g = target (snd q)"
    by (auto simp: live_targets_def)
  then show ?thesis by (auto simp: event_handlers_def Some)
qed

lemma calls_of_emit_none:
  assumes inv: "pool_inv live st" and no: "h \<notin> set (event_handlers st E)"
  shows "calls_of h (calls (emit_quiet live E x st)) = calls_of h (calls st)"
proof -
  have "\<forall>g \<in> set (live_targets live st E). h \<notin> set (captured g)"
    using no live_targets_sub by blast
  then show ?thesis by (simp add: emit_quiet_calls[OF inv] calls_of_traces_none)
qed

lemma update_fresh_append:
  "k \<notin> fst ` set al \<Longrightarrow> AList.update k v al = al @ [(k, v)]"
  by (induction al) auto

lemma on_events_row:
  assumes fresh: "symbols_fresh st"
  shows "map_of (events (snd (on E H st))) E
         = Some ((case map_of (events st) E of None \<Rightarrow> [] | Some em \<Rightarrow> em)
                  @ [(nextSymbol st, WeakRef H)])"
proof (cases "map_of (events st) E")
  case None
  have m: "map_of (AList.update E [] (events st)) E = Some []" by (simp add: update_conv')
  show ?thesis by (simp add: on_def Let_def None m update_conv')
next
  case (Some em)
  have "nextSymbol st \<notin> fst ` set em"
  proof
    assume "nextSymbol st \<in> fst ` set em"
    then obtain w where "(nextSymbol st, w) \<in> set em" by auto
    with map_of_SomeD[OF Some] fresh show False unfolding symbols_fresh_def by fastforce
  qed
  from update_fresh_append[OF this] show ?thesis
    by (simp add: on_def Let_def Some update_conv')
qed

lemma live_targets_on:
  assumes "symbols_fresh st"
  shows "live_targets live (snd (on E H st)) E
         = live_targets live st E @ (if live H then [H] else [])"
  by (simp add: live_targets_def on_events_row[OF assms] split: option.splits)

lemma event_handlers_on:
  assumes "symbols_fresh st"
  shows "event_handlers (snd (on E H st)) E = event_handlers st E @ captured H"
  by (simp add: event_handlers_def on_events_row[OF assms] split: option.splits)

lemma pool_inv_fresh: "pool_inv live st \<Longrightarrow> symbols_fresh st"
  by (simp add: pool_inv_def)

section \<open>What cleaning removes\<close>

lemma clean_events_shrink:
  assumes "maps_distinct st" "lookup_events (cleanDeadHandlers live E st) e i = Some w"
  shows "lookup_events st e i = Some w"
proof (cases "map_of (events st) E = None \<or> map_of (handlerMap st) E = None")
  case True
  then show ?thesis using assms by (simp add: clean_skip)
next
  case False
  then obtain em hm where em: "map_of (events st) E = Some em"
    and hm: "map_of (handlerMap st) E = Some hm" by auto
  from assms(2) show ?thesis
    by (auto simp: clean_effect(1)[OF assms(1) em hm] split: if_splits)
qed










section \<open>The closure of \<^verbatim>\<open>once\<close> under \<open>emit_quiet\<close>\<close>

lemma emit_quiet_events_shrink:
  assumes inv: "pool_inv live st" and a: "lookup_events (emit_quiet live E x st) e i = Some w"
  shows "lookup_events st e i = Some w"
proof (cases "map_of (events st) E")
  case None
  then show ?thesis using a by (simp add: emit_quiet_no_table)
next
  case (Some em)
  let ?st1 = "cleanDeadHandlers live E st"
  from emit_quiet_as_loop[OF Some, of live x] obtain em1 where
    em1: "map_of (events ?st1) E = Some em1"
    and e: "emit_quiet live E x st = emit_loop_quiet live E x (map fst em1) ?st1"
    by blast
  have inv1: "pool_inv live ?st1" by (rule clean_pool_inv[OF inv])
  from a have "lookup_events ?st1 e i = Some w"
    unfolding e emit_loop_quiet_full(3)[OF inv1 em1] by (auto split: if_splits)
  then show ?thesis by (rule clean_events_shrink[OF pool_invD(1)[OF inv]])
qed

lemma emit_quiet_removes_wrapper:
  assumes inv: "pool_inv live st" and a: "lookup_events st E i = Some (WeakRef g)"
    and lg: "live g" and wg: "is_wrapper g"
  shows "lookup_events (emit_quiet live E x st) E i = None"
    and "lookup_handlerMap (emit_quiet live E x st) E g = None"
proof -
  from a obtain em where em: "map_of (events st) E = Some em"
    by (auto simp: lookup_events_def split: option.splits)
  let ?st1 = "cleanDeadHandlers live E st"
  from emit_quiet_as_loop[OF em, of live x] obtain em1 where
    em1: "map_of (events ?st1) E = Some em1"
    and e: "emit_quiet live E x st = emit_loop_quiet live E x (map fst em1) ?st1"
    by blast
  have inv1: "pool_inv live ?st1" by (rule clean_pool_inv[OF inv])
  have a1: "lookup_events ?st1 E i = Some (WeakRef g)"
    by (rule clean_keeps_live(1)[OF inv a]) (use lg in simp)
  show "lookup_events (emit_quiet live E x st) E i = None"
    unfolding e emit_loop_quiet_full(3)[OF inv1 em1] using a1 lg wg by auto
  show "lookup_handlerMap (emit_quiet live E x st) E g = None"
    unfolding e emit_loop_quiet_full(4)[OF inv1 em1] using a1 lg wg by auto
qed

lemma emit_quiet_event_handlers_shrink:
  assumes inv: "pool_inv live st" and no: "h \<notin> set (event_handlers st E)"
  shows "h \<notin> set (event_handlers (emit_quiet live E x st) E)"
proof
  assume "h \<in> set (event_handlers (emit_quiet live E x st) E)"
  then obtain i w where "lookup_events (emit_quiet live E x st) E i = Some w"
    "h \<in> set (captured (target w))"
    unfolding event_handlers_iff[OF pool_invD(1)[OF emit_quiet_pool_inv[OF inv]]] by blast
  with emit_quiet_events_shrink[OF inv] have "h \<in> set (event_handlers st E)"
    unfolding event_handlers_iff[OF pool_invD(1)[OF inv]] by blast
  with no show False by simp
qed

lemma emits_quiet:
  assumes "pool_inv live st" "h \<notin> set (event_handlers st E)"
  shows "calls_of h (calls (fold (emit_quiet live E) bs st)) = calls_of h (calls st)"
  using assms
proof (induction bs arbitrary: st)
  case Nil
  then show ?case by simp
next
  case (Cons b bs)
  have "calls_of h (calls (fold (emit_quiet live E) bs (emit_quiet live E b st)))
          = calls_of h (calls (emit_quiet live E b st))"
    by (rule Cons.IH[OF emit_quiet_pool_inv[OF Cons.prems(1)]
          emit_quiet_event_handlers_shrink[OF Cons.prems]])
  then show ?case by (simp add: calls_of_emit_none[OF Cons.prems])
qed

lemma scoped_not_captured:
  assumes "scoped c E g" "c \<le> k"
  shows "OnceHandler k e h \<notin> set (captured g)"
proof (cases g)
  case (Fn n)
  then show ?thesis by simp
next
  case (OnceHandler k' e' h')
  with assms have "k' < k" "\<not> is_wrapper h'" by simp_all
  then show ?thesis using OnceHandler by (cases h') auto
qed

section \<open>Calling a handler that keeps away from the pool\<close>

lemma returns_quietly_leaves_pool: "returns_quietly beh g \<Longrightarrow> leaves_pool beh g"
  by (induction g) simp_all

lemma invoke_leaves:
  assumes "leaves_pool beh g"
  shows "invoke beh g x st = Some (Returns (invoke_quiet g x st))
       \<or> invoke beh g x st = Some (Throws (st\<lparr>calls := calls st @ trace g x\<rparr>))"
  using assms
proof (induction g arbitrary: st)
  case (Fn n)
  then show ?case by simp
next
  case (OnceHandler k e h)
  let ?st' = "st\<lparr>calls := calls st @ [(OnceHandler k e h, x)]\<rparr>"
  from OnceHandler.prems have "leaves_pool beh h" by simp
  from OnceHandler.IH[OF this, of ?st'] show ?case by auto
qed

lemma invoke_returns:
  assumes "returns_quietly beh g"
  shows "invoke beh g x st = Some (Returns (invoke_quiet g x st))"
  using assms by (induction g arbitrary: st) simp_all

lemma off_eventMapId [simp]: "eventMapId (off e h st) = eventMapId st"
  by (simp add: off_def split: option.splits)

lemma invoke_quiet_eventMapId [simp]: "eventMapId (invoke_quiet g x st) = eventMapId st"
  by (induction g arbitrary: st) simp_all

lemma off_events_row:
  assumes "map_of (events st) E = Some em" "lookup_handlerMap st E h = Some i"
  shows "map_of (events (off E h st)) E = Some (AList.delete i em)"
  using assms by (auto simp: off_def lookup_handlerMap_def update_conv' split: option.splits)

lemma invoke_quiet_events_row:
  assumes inv: "pool_inv live st" and em: "map_of (events st) E = Some em"
    and a: "map_of em a = Some (WeakRef g)" and lv: "live g"
  shows "map_of (events (invoke_quiet g x st)) E
           = Some (if is_wrapper g then AList.delete a em else em)"
proof -
  have le: "lookup_events st E a = Some (WeakRef g)" using em a by (simp add: lookup_events_def)
  from pool_invD(4)[OF inv le] have sc: "scoped (nextClosure st) E g" by simp
  show ?thesis
  proof (cases g)
    case (Fn n)
    then show ?thesis using em by simp
  next
    case (OnceHandler k e' h')
    with sc have pl: "\<not> is_wrapper h'" and e': "e' = E" by simp_all
    have "lookup_handlerMap st E g = Some a"
      using pool_invD(6)[OF inv le] lv OnceHandler by simp
    then have "lookup_handlerMap (st\<lparr>calls := calls st @ [(g, x), (h', x)]\<rparr>) E g = Some a"
      by simp
    from off_events_row[OF _ this, of em] em
    show ?thesis unfolding OnceHandler invoke_quiet_wrapper[OF pl] e'
      using OnceHandler e' by simp
  qed
qed

section \<open>The loop of emit against the loop over a snapshot\<close>

lemma find_append_none:
  "(\<forall>q \<in> set xs. \<not> P q) \<Longrightarrow> find P (xs @ ys) = find P ys"
  by (induction xs) simp_all

lemma find_first_unpassed:
  assumes dist: "distinct (map fst (pre @ rest))"
    and passed: "set passed = fst ` set pre"
    and D: "D \<subseteq> fst ` set pre"
  shows "find (\<lambda>q. fst q \<notin> set passed) (filter (\<lambda>q. fst q \<notin> D) (pre @ rest))
           = (case rest of [] \<Rightarrow> None | q # qs \<Rightarrow> Some q)"
proof -
  have r: "filter (\<lambda>q. fst q \<notin> D) rest = rest"
    using dist D by (intro filter_True) auto
  have "find (\<lambda>q. fst q \<notin> set passed) (filter (\<lambda>q. fst q \<notin> D) pre @ rest)
          = find (\<lambda>q. fst q \<notin> set passed) rest"
    by (rule find_append_none) (auto simp: passed)
  also have "\<dots> = (case rest of [] \<Rightarrow> None | q # qs \<Rightarrow> Some q)"
    using dist passed by (cases rest) auto
  finally show ?thesis by (simp add: r)
qed

lemma delete_filter:
  "AList.delete a (filter P xs) = filter (\<lambda>q. fst q \<noteq> a \<and> P q) xs"
  by (induction xs) auto

lemma held_map_attached:
  "map_of (eventMapId st) E = mapId \<Longrightarrow> map_of (events st) E = Some em
     \<Longrightarrow> held_map st E mapId = em"
  by (simp add: held_map_def)

lemma event_handlers_row:
  "map_of (events st) E = Some em
     \<Longrightarrow> set (event_handlers st E) = (\<Union>q \<in> set em. set (captured (target (snd q))))"
  by (simp add: event_handlers_def)

lemma emit_loop_refines:
  assumes inv: "pool_inv live st"
    and row: "map_of (events st) E = Some (filter (\<lambda>q. fst q \<notin> D) (pre @ rest))"
    and D: "D \<subseteq> fst ` set pre"
    and dist: "distinct (map fst (pre @ rest))"
    and passed: "set passed = fst ` set pre"
    and att: "map_of (eventMapId st) E = mapId"
    and lp: "\<forall>g \<in> set (event_handlers st E). leaves_pool beh g"
  shows "\<exists>out. emit_loop live beh E x mapId passed st = Some out
          \<and> (out = Returns (emit_loop_quiet live E x (map fst rest) st)
             \<or> (\<exists>j g. j < length rest
                   \<and> lookup_events st E (map fst rest ! j) = Some (WeakRef g) \<and> live g
                   \<and> \<not> returns_quietly beh g
                   \<and> out = Throws ((emit_loop_quiet live E x (take j (map fst rest)) st)
                                   \<lparr>calls := calls (emit_loop_quiet live E x (take j (map fst rest)) st)
                                              @ trace g x\<rparr>)))"
  using assms
proof (induction rest arbitrary: pre passed st D)
  case Nil
  have "held_map st E mapId = filter (\<lambda>q. fst q \<notin> D) (pre @ [])"
    by (rule held_map_attached[OF Nil.prems(6) Nil.prems(2)])
  moreover have "find (\<lambda>q. fst q \<notin> set passed) (filter (\<lambda>q. fst q \<notin> D) (pre @ [])) = None"
    using find_first_unpassed[OF Nil.prems(4) Nil.prems(5) Nil.prems(3)] by simp
  ultimately have "emit_loop live beh E x mapId passed st = Some (Returns st)"
    by (subst emit_loop.simps) simp
  then show ?case by simp
next
  case (Cons q rest)
  obtain a g where q: "q = (a, WeakRef g)" by (cases q, case_tac b) auto
  define row0 where "row0 = filter (\<lambda>q. fst q \<notin> D) (pre @ q # rest)"
  note inv = Cons.prems(1) and D = Cons.prems(3)
    and dist = Cons.prems(4) and passed = Cons.prems(5) and att = Cons.prems(6)
    and lp = Cons.prems(7)
  have row: "map_of (events st) E = Some row0" using Cons.prems(2) by (simp only: row0_def)
  have hm: "held_map st E mapId = row0" by (rule held_map_attached[OF att row])
  have fnd: "find (\<lambda>q. fst q \<notin> set passed) row0 = Some (a, WeakRef g)"
    unfolding row0_def using find_first_unpassed[OF dist passed D] by (simp add: q)
  have drow: "distinct (map fst row0)" unfolding row0_def by (rule distinct_map_filter[OF dist])
  have a_notD: "a \<notin> D" using dist D by (auto simp: q)
  have in_row: "(a, WeakRef g) \<in> set row0" using a_notD by (simp add: q row0_def)
  have ma: "map_of row0 a = Some (WeakRef g)" by (rule map_of_is_SomeI[OF drow in_row])
  have le: "lookup_events st E a = Some (WeakRef g)" by (simp add: lookup_events_def row ma)
  have pre': "pre @ q # rest = (pre @ [q]) @ rest" by simp
  have dist': "distinct (map fst ((pre @ [q]) @ rest))" using dist by simp
  have passed': "set (a # passed) = fst ` set (pre @ [q])" using passed by (auto simp: q)
  have unf: "emit_loop live beh E x mapId passed st =
      (case deref live (WeakRef g) of
         None \<Rightarrow> emit_loop live beh E x mapId (a # passed) st
       | Some handler \<Rightarrow>
          (case invoke beh handler x st of
             None \<Rightarrow> None
           | Some (Returns st') \<Rightarrow> emit_loop live beh E x mapId (a # passed) st'
           | Some (Throws st') \<Rightarrow> Some (Throws st')))"
    by (subst emit_loop.simps) (simp add: hm fnd)
  show ?case
  proof (cases "live g")
    case False
    have lq: "\<And>ids. emit_loop_quiet live E x (a # ids) st = emit_loop_quiet live E x ids st"
      using False by (simp add: row ma)
    have D': "D \<subseteq> fst ` set (pre @ [q])" using D by auto
    have row1: "map_of (events st) E = Some (filter (\<lambda>q. fst q \<notin> D) ((pre @ [q]) @ rest))"
      using row by (simp add: row0_def)
    from Cons.IH[OF inv row1 D' dist' passed' att lp]
    obtain out where o: "emit_loop live beh E x mapId (a # passed) st = Some out"
      and alt: "out = Returns (emit_loop_quiet live E x (map fst rest) st)
             \<or> (\<exists>j g. j < length rest
                   \<and> lookup_events st E (map fst rest ! j) = Some (WeakRef g) \<and> live g
                   \<and> \<not> returns_quietly beh g
                   \<and> out = Throws ((emit_loop_quiet live E x (take j (map fst rest)) st)
                                   \<lparr>calls := calls (emit_loop_quiet live E x (take j (map fst rest)) st)
                                              @ trace g x\<rparr>))"
      by blast
    have e: "emit_loop live beh E x mapId passed st = Some out"
      using False o by (simp add: unf)
    from alt show ?thesis
    proof
      assume "out = Returns (emit_loop_quiet live E x (map fst rest) st)"
      then show ?thesis using e by (simp add: q lq del: emit_loop_quiet.simps)
    next
      assume "\<exists>j g. j < length rest
                   \<and> lookup_events st E (map fst rest ! j) = Some (WeakRef g) \<and> live g
                   \<and> \<not> returns_quietly beh g
                   \<and> out = Throws ((emit_loop_quiet live E x (take j (map fst rest)) st)
                                   \<lparr>calls := calls (emit_loop_quiet live E x (take j (map fst rest)) st)
                                              @ trace g x\<rparr>)"
      then obtain j g' where j: "j < length rest"
        and 1: "lookup_events st E (map fst rest ! j) = Some (WeakRef g')" "live g'"
           "\<not> returns_quietly beh g'"
        and 2: "out = Throws ((emit_loop_quiet live E x (take j (map fst rest)) st)
                                   \<lparr>calls := calls (emit_loop_quiet live E x (take j (map fst rest)) st)
                                              @ trace g' x\<rparr>)"
        by blast
      have "Suc j < length (q # rest)" using j by simp
      moreover have "lookup_events st E (map fst (q # rest) ! Suc j) = Some (WeakRef g')"
        using 1 by simp
      moreover have "out = Throws ((emit_loop_quiet live E x (take (Suc j) (map fst (q # rest))) st)
                 \<lparr>calls := calls (emit_loop_quiet live E x (take (Suc j) (map fst (q # rest))) st)
                            @ trace g' x\<rparr>)"
        using 2 by (simp add: q lq del: emit_loop_quiet.simps)
      ultimately show ?thesis using e 1 by blast
    qed
  next
    case True
    have gh: "g \<in> set (event_handlers st E)"
      unfolding event_handlers_row[OF row] using in_row captured_self[of g] by force
    with lp have lpg: "leaves_pool beh g" by blast
    from invoke_leaves[OF lpg, of x st] show ?thesis
    proof
      assume thr: "invoke beh g x st = Some (Throws (st\<lparr>calls := calls st @ trace g x\<rparr>))"
      have e: "emit_loop live beh E x mapId passed st
                 = Some (Throws (st\<lparr>calls := calls st @ trace g x\<rparr>))"
        using True thr by (simp add: unf)
      have nr: "\<not> returns_quietly beh g"
        using invoke_returns[of beh g x st] thr by auto
      have "0 < length (q # rest)" by simp
      moreover have "lookup_events st E (map fst (q # rest) ! 0) = Some (WeakRef g)"
        using le by (simp add: q)
      moreover have "Throws (st\<lparr>calls := calls st @ trace g x\<rparr>)
          = Throws ((emit_loop_quiet live E x (take 0 (map fst (q # rest))) st)
                 \<lparr>calls := calls (emit_loop_quiet live E x (take 0 (map fst (q # rest))) st)
                            @ trace g x\<rparr>)"
        by simp
      ultimately show ?thesis using e True nr by blast
    next
      assume ret: "invoke beh g x st = Some (Returns (invoke_quiet g x st))"
      let ?st' = "invoke_quiet g x st"
      let ?D' = "if is_wrapper g then insert a D else D"
      have sc: "scoped (nextClosure st) E g" using pool_invD(4)[OF inv le] by simp
      have inv': "pool_inv live ?st'" by (rule invoke_quiet_pool_inv[OF inv True sc])
      have del: "AList.delete a row0 = filter (\<lambda>q. fst q \<notin> insert a D) (pre @ q # rest)"
        unfolding row0_def delete_filter by (rule filter_cong) auto
      have row': "map_of (events ?st') E = Some (filter (\<lambda>q. fst q \<notin> ?D') ((pre @ [q]) @ rest))"
        using invoke_quiet_events_row[OF inv row ma True, of x] del by (simp add: row0_def)
      have D': "?D' \<subseteq> fst ` set (pre @ [q])" using D by (auto simp: q)
      have att': "map_of (eventMapId ?st') E = mapId" using att by simp
      have rs: "set (filter (\<lambda>q. fst q \<notin> ?D') ((pre @ [q]) @ rest)) \<subseteq> set row0"
        unfolding row0_def by auto
      have sub: "set (event_handlers ?st' E) \<subseteq> set (event_handlers st E)"
        unfolding event_handlers_row[OF row] event_handlers_row[OF row']
        by (rule UN_mono[OF rs]) simp
      have lp': "\<forall>g \<in> set (event_handlers ?st' E). leaves_pool beh g" using lp sub by blast
      have lq: "\<And>ids. emit_loop_quiet live E x (a # ids) st = emit_loop_quiet live E x ids ?st'"
        using True by (simp add: row ma)
      from Cons.IH[OF inv' row' D' dist' passed' att' lp']
      obtain out where o: "emit_loop live beh E x mapId (a # passed) ?st' = Some out"
        and alt: "out = Returns (emit_loop_quiet live E x (map fst rest) ?st')
             \<or> (\<exists>j g. j < length rest
                   \<and> lookup_events ?st' E (map fst rest ! j) = Some (WeakRef g) \<and> live g
                   \<and> \<not> returns_quietly beh g
                   \<and> out = Throws ((emit_loop_quiet live E x (take j (map fst rest)) ?st')
                                   \<lparr>calls := calls (emit_loop_quiet live E x (take j (map fst rest)) ?st')
                                              @ trace g x\<rparr>))"
        by blast
      have e: "emit_loop live beh E x mapId passed st = Some out"
        using True ret o by (simp add: unf)
      from alt show ?thesis
      proof
        assume "out = Returns (emit_loop_quiet live E x (map fst rest) ?st')"
        then show ?thesis using e by (simp add: q lq del: emit_loop_quiet.simps)
      next
        assume "\<exists>j g. j < length rest
                   \<and> lookup_events ?st' E (map fst rest ! j) = Some (WeakRef g) \<and> live g
                   \<and> \<not> returns_quietly beh g
                   \<and> out = Throws ((emit_loop_quiet live E x (take j (map fst rest)) ?st')
                                   \<lparr>calls := calls (emit_loop_quiet live E x (take j (map fst rest)) ?st')
                                              @ trace g x\<rparr>)"
        then obtain j g' where j: "j < length rest"
          and 1: "lookup_events ?st' E (map fst rest ! j) = Some (WeakRef g')" "live g'"
             "\<not> returns_quietly beh g'"
          and 2: "out = Throws ((emit_loop_quiet live E x (take j (map fst rest)) ?st')
                                   \<lparr>calls := calls (emit_loop_quiet live E x (take j (map fst rest)) ?st')
                                              @ trace g' x\<rparr>)"
          by blast
        have old: "lookup_events st E (map fst rest ! j) = Some (WeakRef g')"
          using 1(1) unfolding invoke_quiet_lookup(1)[OF sc] by (simp split: if_splits)
        have "Suc j < length (q # rest)" using j by simp
        moreover have "lookup_events st E (map fst (q # rest) ! Suc j) = Some (WeakRef g')"
          using old by simp
        moreover have "out = Throws ((emit_loop_quiet live E x (take (Suc j) (map fst (q # rest))) st)
                 \<lparr>calls := calls (emit_loop_quiet live E x (take (Suc j) (map fst (q # rest))) st)
                            @ trace g' x\<rparr>)"
          using 2 by (simp add: q lq del: emit_loop_quiet.simps)
        ultimately show ?thesis using e 1 by blast
      qed
    qed
  qed
qed


section \<open>What an emit leaves behind\<close>


lemma clean_event_handlers_sub:
  assumes md: "maps_distinct st"
  shows "set (event_handlers (cleanDeadHandlers live E' st) E) \<subseteq> set (event_handlers st E)"
proof (cases "map_of (events st) E' = None \<or> map_of (handlerMap st) E' = None")
  case True
  then show ?thesis by (simp add: clean_skip)
next
  case False
  then obtain em hm where em: "map_of (events st) E' = Some em"
    and hm: "map_of (handlerMap st) E' = Some hm" by auto
  have md1: "maps_distinct (cleanDeadHandlers live E' st)" by (rule clean_effect(4)[OF md em hm])
  show ?thesis
    unfolding event_handlers_iff[OF md1] event_handlers_iff[OF md] subset_iff
    using clean_events_shrink[OF md] by blast
qed

text \<open>An \<^verbatim>\<open>emit\<close> whose functions keep away from the pool returns what
  \<open>emit_quiet\<close> computes, or throws after \<open>emit_quiet\<close>'s loop has gone through some of
  the symbols and the next function has been called.\<close>

lemma emit_refines:
  assumes inv: "pool_inv live st"
    and lp: "\<forall>g \<in> set (event_handlers st E). leaves_pool beh g"
  shows "\<exists>out. emit live beh E x st = Some out
          \<and> (out = Returns (emit_quiet live E x st)
             \<or> (\<exists>ids i g. distinct (ids @ [i])
                   \<and> lookup_events (cleanDeadHandlers live E st) E i = Some (WeakRef g)
                   \<and> live g \<and> g \<in> set (event_handlers st E) \<and> \<not> returns_quietly beh g
                   \<and> out = Throws ((emit_loop_quiet live E x ids (cleanDeadHandlers live E st))
                        \<lparr>calls := calls (emit_loop_quiet live E x ids (cleanDeadHandlers live E st))
                                   @ trace g x\<rparr>)))"
proof (cases "map_of (events st) E")
  case None
  then have "emit live beh E x st = Some (Returns st)"
    by (simp add: emit_def clean_skip)
  then show ?thesis using None by (simp add: emit_quiet_no_table)
next
  case (Some em)
  let ?st1 = "cleanDeadHandlers live E st"
  from emit_quiet_as_loop[OF Some, of live x] obtain em1 where
    em1: "map_of (events ?st1) E = Some em1"
    and e: "emit_quiet live E x st = emit_loop_quiet live E x (map fst em1) ?st1"
    by blast
  have inv1: "pool_inv live ?st1" by (rule clean_pool_inv[OF inv])
  have dem1: "distinct (map fst em1)"
    using pool_invD(1)[OF inv1] em1 by (auto simp: maps_distinct_def dest: table_distinct_lookup)
  have sub: "set (event_handlers ?st1 E) \<subseteq> set (event_handlers st E)"
    by (rule clean_event_handlers_sub[OF pool_invD(1)[OF inv]])
  have lp1: "\<forall>g \<in> set (event_handlers ?st1 E). leaves_pool beh g" using lp sub by blast
  have unf: "emit live beh E x st = emit_loop live beh E x (map_of (eventMapId ?st1) E) [] ?st1"
    by (simp add: emit_def em1 Let_def)
  have row: "map_of (events ?st1) E = Some (filter (\<lambda>q. fst q \<notin> {}) ([] @ em1))"
    using em1 by simp
  from emit_loop_refines[OF inv1 row _ _ _ refl lp1, of "[]" x] dem1
  obtain out where o: "emit_loop live beh E x (map_of (eventMapId ?st1) E) [] ?st1 = Some out"
    and alt: "out = Returns (emit_loop_quiet live E x (map fst em1) ?st1)
             \<or> (\<exists>j g. j < length em1
                   \<and> lookup_events ?st1 E (map fst em1 ! j) = Some (WeakRef g) \<and> live g
                   \<and> \<not> returns_quietly beh g
                   \<and> out = Throws ((emit_loop_quiet live E x (take j (map fst em1)) ?st1)
                                   \<lparr>calls := calls (emit_loop_quiet live E x (take j (map fst em1)) ?st1)
                                              @ trace g x\<rparr>))"
    by auto
  from alt show ?thesis
  proof
    assume "out = Returns (emit_loop_quiet live E x (map fst em1) ?st1)"
    then show ?thesis using o unf e by simp
  next
    assume "\<exists>j g. j < length em1
                   \<and> lookup_events ?st1 E (map fst em1 ! j) = Some (WeakRef g) \<and> live g
                   \<and> \<not> returns_quietly beh g
                   \<and> out = Throws ((emit_loop_quiet live E x (take j (map fst em1)) ?st1)
                                   \<lparr>calls := calls (emit_loop_quiet live E x (take j (map fst em1)) ?st1)
                                              @ trace g x\<rparr>)"
    then obtain j g where j: "j < length em1"
      and 1: "lookup_events ?st1 E (map fst em1 ! j) = Some (WeakRef g)" "live g"
        "\<not> returns_quietly beh g"
      and 2: "out = Throws ((emit_loop_quiet live E x (take j (map fst em1)) ?st1)
                                   \<lparr>calls := calls (emit_loop_quiet live E x (take j (map fst em1)) ?st1)
                                              @ trace g x\<rparr>)"
      by blast
    have "g \<in> set (event_handlers ?st1 E)"
      unfolding event_handlers_iff[OF pool_invD(1)[OF inv1]]
      using 1(1) captured_self[of g] by fastforce
    with sub have g: "g \<in> set (event_handlers st E)" by blast
    have "take (Suc j) (map fst em1) = take j (map fst em1) @ [map fst em1 ! j]"
      using j by (simp add: take_Suc_conv_app_nth)
    then have dt: "distinct (take j (map fst em1) @ [map fst em1 ! j])"
      using distinct_take[OF dem1, of "Suc j"] by simp
    have eo: "emit live beh E x st = Some out" using o unf by simp
    have "\<exists>ids i g. distinct (ids @ [i])
                   \<and> lookup_events (cleanDeadHandlers live E st) E i = Some (WeakRef g)
                   \<and> live g \<and> g \<in> set (event_handlers st E) \<and> \<not> returns_quietly beh g
                   \<and> out = Throws ((emit_loop_quiet live E x ids (cleanDeadHandlers live E st))
                        \<lparr>calls := calls (emit_loop_quiet live E x ids (cleanDeadHandlers live E st))
                                   @ trace g x\<rparr>)"
      using dt g 1 2
      by (intro exI[of _ "take j (map fst em1)"] exI[of _ "map fst em1 ! j"] exI[of _ g]) blast
    with eo show ?thesis by blast
  qed
qed

lemma emit_returns:
  assumes inv: "pool_inv live st"
    and rq: "\<forall>g \<in> set (event_handlers st E). returns_quietly beh g"
  shows "emit live beh E x st = Some (Returns (emit_quiet live E x st))"
proof -
  have lp: "\<forall>g \<in> set (event_handlers st E). leaves_pool beh g"
    using rq returns_quietly_leaves_pool by blast
  from emit_refines[OF inv lp, of x] rq show ?thesis by blast
qed

lemma emit_quiet_is_loop:
  assumes inv: "pool_inv live st"
  shows "\<exists>ids. distinct ids
     \<and> emit_quiet live E x st = emit_loop_quiet live E x ids (cleanDeadHandlers live E st)"
proof (cases "map_of (events st) E")
  case None
  then have "emit_quiet live E x st = emit_loop_quiet live E x [] (cleanDeadHandlers live E st)"
    by (simp add: emit_quiet_no_table clean_skip)
  then show ?thesis by (intro exI[of _ "[]"]) simp
next
  case (Some em)
  from emit_quiet_as_loop[OF Some, of live x] obtain em1 where
    em1: "map_of (events (cleanDeadHandlers live E st)) E = Some em1"
    and e: "emit_quiet live E x st = emit_loop_quiet live E x (map fst em1) (cleanDeadHandlers live E st)"
    by blast
  have "distinct (map fst em1)"
    using pool_invD(1)[OF clean_pool_inv[OF inv, of E]] em1
    by (auto simp: maps_distinct_def dest: table_distinct_lookup)
  with e show ?thesis by blast
qed

text \<open>In both cases the tables are those that the loop of \<open>emit_quiet\<close> leaves after some
  of the symbols.\<close>

lemma emit_outcome:
  assumes inv: "pool_inv live st"
    and lp: "\<forall>g \<in> set (event_handlers st E). leaves_pool beh g"
  shows "\<exists>out ids cs. emit live beh E x st = Some out \<and> distinct ids
          \<and> state_of out = (emit_loop_quiet live E x ids (cleanDeadHandlers live E st))\<lparr>calls := cs\<rparr>"
proof -
  from emit_refines[OF inv lp, of x]
  obtain out where o: "emit live beh E x st = Some out"
    and alt: "out = Returns (emit_quiet live E x st)
             \<or> (\<exists>ids i g. distinct (ids @ [i])
                   \<and> lookup_events (cleanDeadHandlers live E st) E i = Some (WeakRef g)
                   \<and> live g \<and> g \<in> set (event_handlers st E) \<and> \<not> returns_quietly beh g
                   \<and> out = Throws ((emit_loop_quiet live E x ids (cleanDeadHandlers live E st))
                        \<lparr>calls := calls (emit_loop_quiet live E x ids (cleanDeadHandlers live E st))
                                   @ trace g x\<rparr>))"
    by blast
  from alt show ?thesis
  proof
    assume r: "out = Returns (emit_quiet live E x st)"
    from emit_quiet_is_loop[OF inv, of E x] obtain ids where
      ids: "distinct ids"
        "emit_quiet live E x st = emit_loop_quiet live E x ids (cleanDeadHandlers live E st)"
      by blast
    have "state_of out = (emit_loop_quiet live E x ids (cleanDeadHandlers live E st))
            \<lparr>calls := calls (emit_loop_quiet live E x ids (cleanDeadHandlers live E st))\<rparr>"
      using r ids(2) by simp
    with o ids(1) show ?thesis by blast
  next
    assume "\<exists>ids i g. distinct (ids @ [i])
                   \<and> lookup_events (cleanDeadHandlers live E st) E i = Some (WeakRef g)
                   \<and> live g \<and> g \<in> set (event_handlers st E) \<and> \<not> returns_quietly beh g
                   \<and> out = Throws ((emit_loop_quiet live E x ids (cleanDeadHandlers live E st))
                        \<lparr>calls := calls (emit_loop_quiet live E x ids (cleanDeadHandlers live E st))
                                   @ trace g x\<rparr>)"
    then obtain ids i g where "distinct (ids @ [i])"
      "out = Throws ((emit_loop_quiet live E x ids (cleanDeadHandlers live E st))
                        \<lparr>calls := calls (emit_loop_quiet live E x ids (cleanDeadHandlers live E st))
                                   @ trace g x\<rparr>)"
      by blast
    then have "distinct ids \<and> state_of out
         = (emit_loop_quiet live E x ids (cleanDeadHandlers live E st))
             \<lparr>calls := calls (emit_loop_quiet live E x ids (cleanDeadHandlers live E st)) @ trace g x\<rparr>"
      by simp
    with o show ?thesis by blast
  qed
qed

lemma emit_pool_inv:
  assumes inv: "pool_inv live st"
    and lp: "\<forall>g \<in> set (event_handlers st E). leaves_pool beh g"
    and o: "emit live beh E x st = Some out"
  shows "pool_inv live (state_of out)"
proof -
  from emit_outcome[OF inv lp, of x] o obtain ids cs where d: "distinct ids"
    and s: "state_of out = (emit_loop_quiet live E x ids (cleanDeadHandlers live E st))\<lparr>calls := cs\<rparr>"
    by auto
  from emit_loop_quiet_effect[OF clean_pool_inv[OF inv] d, where E=E and x=x]
  show ?thesis unfolding s by simp
qed


lemma emit_keys:
  assumes inv: "pool_inv live st"
    and lp: "\<forall>g \<in> set (event_handlers st E). leaves_pool beh g"
    and o: "emit live beh E x st = Some out"
  shows "map fst (events (state_of out)) = map fst (events st)"
    and "map fst (handlerMap (state_of out)) = map fst (handlerMap st)"
proof -
  from emit_outcome[OF inv lp, of x] o obtain ids cs where
    s: "state_of out = (emit_loop_quiet live E x ids (cleanDeadHandlers live E st))\<lparr>calls := cs\<rparr>"
    by auto
  show "map fst (events (state_of out)) = map fst (events st)"
    and "map fst (handlerMap (state_of out)) = map fst (handlerMap st)"
    unfolding s by (simp_all add: emit_loop_quiet_keys cleanDeadHandlers_keys)
qed

lemma emit_frame:
  assumes inv: "pool_inv live st" and ne: "e \<noteq> E"
    and lp: "\<forall>g \<in> set (event_handlers st E). leaves_pool beh g"
    and o: "emit live beh E x st = Some out"
  shows "map_of (events (state_of out)) e = map_of (events st) e"
    and "map_of (handlerMap (state_of out)) e = map_of (handlerMap st) e"
proof -
  from emit_outcome[OF inv lp, of x] o obtain ids cs where
    s: "state_of out = (emit_loop_quiet live E x ids (cleanDeadHandlers live E st))\<lparr>calls := cs\<rparr>"
    by auto
  show "map_of (events (state_of out)) e = map_of (events st) e"
    and "map_of (handlerMap (state_of out)) e = map_of (handlerMap st) e"
    unfolding s
    using emit_loop_quiet_frame[OF clean_pool_inv[OF inv] ne, where x=x and ids=ids] clean_frame[OF ne, of live st]
    by simp_all
qed

lemma emit_terminates:
  assumes inv: "pool_inv live st"
    and lp: "\<forall>g \<in> set (event_handlers st E). leaves_pool beh g"
  shows "\<exists>out. emit live beh E x st = Some out"
  using emit_refines[OF inv lp, of x] by blast



section \<open>The rows of the outer maps during an emit\<close>





section \<open>The public operations keep the invariant\<close>

lemma leaves_pool_all: "\<forall>n. leaves_pool beh (Fn n) \<Longrightarrow> leaves_pool beh g"
  by (induction g) simp_all

lemma exec_terminates:
  assumes inv: "pool_inv live st" and lp: "\<forall>n. leaves_pool beh (Fn n)"
  shows "\<exists>out. exec live beh op st = Some out"
proof (cases op)
  case (Emit e x)
  have "\<forall>g \<in> set (event_handlers st e). leaves_pool beh g"
    using leaves_pool_all[OF lp] by blast
  from emit_terminates[OF inv this] Emit show ?thesis by simp
qed simp_all

lemma exec_pool_inv:
  assumes inv: "pool_inv live st" and ch: "caller_holds live op"
    and lp: "\<forall>n. leaves_pool beh (Fn n)"
    and o: "exec live beh op st = Some out"
  shows "pool_inv live (state_of out)"
proof (cases op)
  case (On e n)
  have "pool_inv live (snd (on e (Fn n) st))" by (rule on_pool_inv[OF inv]) simp_all
  with o On show ?thesis by auto
next
  case (Once e n)
  have "pool_inv live (snd (once e (Fn n) st))" by (rule once_pool_inv[OF inv]) simp
  with o Once show ?thesis by auto
next
  case (Off e n)
  with ch o show ?thesis by (auto simp: off_pool_inv[OF inv])
next
  case (OffById i)
  with o show ?thesis by (auto simp: offById_pool_inv[OF inv])
next
  case (RemoveAllListeners e)
  with o show ?thesis by (auto simp: removeAllListeners_pool_inv[OF inv])
next
  case RemoveAll
  with o show ?thesis by (auto simp: removeAll_pool_inv[OF inv])
next
  case (Emit e x)
  have "\<forall>g \<in> set (event_handlers st e). leaves_pool beh g"
    using leaves_pool_all[OF lp] by blast
  from emit_pool_inv[OF inv this] o Emit show ?thesis by simp
next
  case Sweep
  with o show ?thesis by (auto simp: sweep_pool_inv[OF inv])
qed


text \<open>A sequence of public operations comes to an end when the functions that the
  callers subscribe return or throw, without having called the pool.\<close>

lemma run_terminates:
  assumes "pool_inv live st" "\<forall>op \<in> set ops. caller_holds live op"
    and lp: "\<forall>n. leaves_pool beh (Fn n)"
  shows "\<exists>st'. run live beh ops st = Some st' \<and> pool_inv live st'"
  using assms(1,2)
proof (induction ops arbitrary: st)
  case Nil
  then show ?case by simp
next
  case (Cons op ops)
  from exec_terminates[OF Cons.prems(1) lp, of op] obtain out where
    o: "exec live beh op st = Some out" by blast
  have "pool_inv live (state_of out)"
    by (rule exec_pool_inv[OF Cons.prems(1) _ lp o]) (use Cons.prems(2) in simp)
  from Cons.IH[OF this] Cons.prems(2) o show ?case by simp
qed


section \<open>The states that callers reach\<close>

lemma detached_unchanged [simp]:
  "detached (snd (on event handler st)) = detached st"
  "detached (snd (once event handler st)) = detached st"
  "detached (off event handler st) = detached st"
  "detached (offById live eventId st) = detached st"
  "detached (cleanDeadHandlers live event st) = detached st"
  by (simp_all add: on_def once_def off_def offById_def cleanDeadHandlers_def Let_def
        split: option.splits prod.splits)

lemma detached_fold_clean [simp]:
  "detached (fold (cleanDeadHandlers live) es st) = detached st"
  by (induction es arbitrary: st) simp_all

lemma detached_sweep [simp]: "detached (sweepDeadHandlers live st) = detached st"
  by (simp add: sweepDeadHandlers_def)

lemma detached_plain_calls [simp]: "detached_plain (st\<lparr>calls := cs\<rparr>) = detached_plain st"
  by (simp add: detached_plain_def)

lemma reach_inv_calls [simp]: "reach_inv live (st\<lparr>calls := cs\<rparr>) = reach_inv live st"
  by (simp add: reach_inv_def)

lemma scoped_plain_inside: "scoped c event g \<Longrightarrow> plain_inside g"
  by (cases g) simp_all

lemma row_plain_inside:
  assumes inv: "pool_inv live st" and em: "map_of (events st) event = Some eventMap"
    and q: "q \<in> set eventMap"
  shows "plain_inside (target (snd q))"
proof -
  from inv have "handlers_scoped st" by (simp add: pool_inv_def)
  moreover from map_of_SomeD[OF em] have "(event, eventMap) \<in> set (events st)" .
  ultimately have "scoped (nextClosure st) event (target (snd q))"
    using q by (force simp: handlers_scoped_def)
  then show ?thesis by (rule scoped_plain_inside)
qed

lemma held_by_events_plain:
  assumes inv: "pool_inv live st" and p: "p \<in> set (held_by_events st event)" and q: "q \<in> set (snd p)"
  shows "plain_inside (target (snd q))"
proof -
  from p have "map_of (events st) event = Some (snd p)"
    by (cases "map_of (events st) event"; cases "map_of (eventMapId st) event")
       (auto simp: held_by_events_def)
  from row_plain_inside[OF inv this q] show ?thesis .
qed

lemma removeAllListeners_reach_inv:
  assumes "reach_inv live st"
  shows "reach_inv live (removeAllListeners event st)"
proof -
  from assms have inv: "pool_inv live st" and dp: "detached_plain st" by (simp_all add: reach_inv_def)
  have "detached_plain (removeAllListeners event st)"
    using dp held_by_events_plain[OF inv]
    by (auto simp: detached_plain_def removeAllListeners_def)
  with removeAllListeners_pool_inv[OF inv] show ?thesis by (simp add: reach_inv_def)
qed

lemma removeAll_reach_inv:
  assumes "reach_inv live st"
  shows "reach_inv live (removeAll_pool st)"
proof -
  from assms have inv: "pool_inv live st" and dp: "detached_plain st" by (simp_all add: reach_inv_def)
  have "detached_plain (removeAll_pool st)"
    using dp held_by_events_plain[OF inv]
    by (auto simp: detached_plain_def removeAll_pool_def)
  with removeAll_pool_inv[OF inv] show ?thesis by (simp add: reach_inv_def)
qed

lemma held_map_cases:
  "held_map st event mapId = []
   \<or> map_of (events st) event = Some (held_map st event mapId)
   \<or> (\<exists>i. map_of (detached st) i = Some (held_map st event mapId))"
  by (auto simp: held_map_def split: option.splits)

lemma held_map_plain:
  assumes ri: "reach_inv live st" and q: "q \<in> set (held_map st event mapId)"
  shows "plain_inside (target (snd q))"
proof -
  from ri have inv: "pool_inv live st" and dp: "detached_plain st" by (simp_all add: reach_inv_def)
  from held_map_cases[of st event mapId] q
  consider "map_of (events st) event = Some (held_map st event mapId)"
    | i where "map_of (detached st) i = Some (held_map st event mapId)"
    by auto
  then show ?thesis
  proof cases
    case 1
    from row_plain_inside[OF inv 1 q] show ?thesis .
  next
    case 2
    from map_of_SomeD[OF 2] have "(i, held_map st event mapId) \<in> set (detached st)" .
    with dp q show ?thesis by (force simp: detached_plain_def)
  qed
qed

lemma invoke_keeps_inv:
  assumes ki: "keeps_inv live beh" and ri: "reach_inv live st"
    and lv: "live g" and pi: "plain_inside g"
    and o: "invoke beh g x st = Some out"
  shows "reach_inv live (state_of out)"
proof (cases g)
  case (Fn n)
  with o have "beh n x (st\<lparr>calls := calls st @ [(Fn n, x)]\<rparr>) = Some out" by simp
  with ki ri show ?thesis unfolding keeps_inv_def by (metis reach_inv_calls)
next
  case (OnceHandler k e h)
  with pi obtain n where h: "h = Fn n" by (cases h) auto
  let ?st' = "st\<lparr>calls := calls st @ [(g, x), (Fn n, x)]\<rparr>"
  from o have c: "(case beh n x ?st' of
        None \<Rightarrow> None
      | Some (Returns st') \<Rightarrow> Some (Returns (off e g st'))
      | Some (Throws st') \<Rightarrow> Some (Throws st')) = Some out"
    unfolding OnceHandler h by simp
  then obtain r where r: "beh n x ?st' = Some r" by (cases "beh n x ?st'") auto
  from ki ri r have rr: "reach_inv live (state_of r)" unfolding keeps_inv_def by (metis reach_inv_calls)
  show ?thesis
  proof (cases r)
    case (Returns st')
    with c r have out: "out = Returns (off e g st')" by simp
    from rr Returns have "pool_inv live st'" "detached_plain st'" by (simp_all add: reach_inv_def)
    then have "reach_inv live (off e g st')"
      using off_pool_inv[where live=live and H=g and st=st' and E=e] lv
      by (simp add: reach_inv_def detached_plain_def)
    with out show ?thesis by simp
  next
    case (Throws st')
    with c r rr show ?thesis by auto
  qed
qed

text \<open>An \<^verbatim>\<open>emit\<close> keeps the invariant, whether it returns or throws, whatever the
  functions that it calls do, as long as they keep the invariant themselves.\<close>

lemma emit_loop_keeps_inv:
  assumes e: "emit_loop live beh E x mapId passed st = Some out"
    and ki: "keeps_inv live beh" and ri: "reach_inv live st"
  shows "reach_inv live (state_of out)"
proof -
  have "keeps_inv live beh \<and> reach_inv live st \<longrightarrow> reach_inv live (state_of out)"
  proof (rule emit_loop.raw_induct[where P = "\<lambda>live beh E x mapId passed st out.
            keeps_inv live beh \<and> reach_inv live st \<longrightarrow> reach_inv live (state_of out)", OF _ e],
         intro impI)
    fix loop :: "(handler \<Rightarrow> bool) \<Rightarrow> 'a behaviour \<Rightarrow> event \<Rightarrow> 'a \<Rightarrow> nat option \<Rightarrow> symbol list
                   \<Rightarrow> 'a pool \<Rightarrow> 'a outcome option"
    fix live beh E x mapId passed st out
    assume IH: "\<And>live beh E x mapId passed st out.
        loop live beh E x mapId passed st = Some out \<Longrightarrow>
        keeps_inv live beh \<and> reach_inv live st \<longrightarrow> reach_inv live (state_of out)"
    assume body: "(case find (\<lambda>q. fst q \<notin> set passed) (held_map st E mapId) of
        None \<Rightarrow> Some (Returns st)
      | Some (eventId, weakRef) \<Rightarrow>
         (case deref live weakRef of
            None \<Rightarrow> loop live beh E x mapId (eventId # passed) st
          | Some handler \<Rightarrow>
             (case invoke beh handler x st of
                None \<Rightarrow> None
              | Some (Returns st') \<Rightarrow> loop live beh E x mapId (eventId # passed) st'
              | Some (Throws st') \<Rightarrow> Some (Throws st')))) = Some out"
    assume a: "keeps_inv live beh \<and> reach_inv live st"
    then have ki: "keeps_inv live beh" and ri: "reach_inv live st" by simp_all
    show "reach_inv live (state_of out)"
    proof (cases "find (\<lambda>q. fst q \<notin> set passed) (held_map st E mapId)")
      case None
      with body ri show ?thesis by auto
    next
      case (Some q)
      note fq = this
      obtain a w where q: "q = (a, w)" by (cases q)
      from find_SomeD[OF fq] have mem: "q \<in> set (held_map st E mapId)" by simp
      show ?thesis
      proof (cases "deref live w")
        case None
        with body fq q have "loop live beh E x mapId (a # passed) st = Some out" by simp
        from IH[OF this] ki ri show ?thesis by simp
      next
        case (Some g)
        note g = this
        then have lv: "live g" and wg: "w = WeakRef g" by (cases w; auto split: if_splits)+
        have pi: "plain_inside g" using held_map_plain[OF ri mem] by (simp add: q wg)
        show ?thesis
        proof (cases "invoke beh g x st")
          case None
          with body fq q g show ?thesis by simp
        next
          case (Some r)
          note k = invoke_keeps_inv[OF ki ri lv pi Some]
          show ?thesis
          proof (cases r)
            case (Returns st')
            with body fq q g Some
            have "loop live beh E x mapId (a # passed) st' = Some out" by simp
            from IH[OF this] ki k Returns show ?thesis by simp
          next
            case (Throws st')
            with body fq q g Some have "out = Throws st'" by simp
            with k Throws show ?thesis by simp
          qed
        qed
      qed
    qed
  qed
  with ki ri show ?thesis by simp
qed

lemma clean_reach_inv:
  "reach_inv live st \<Longrightarrow> reach_inv live (cleanDeadHandlers live E st)"
  by (simp add: reach_inv_def clean_pool_inv detached_plain_def)

lemma emit_keeps_inv:
  assumes e: "emit live beh E x st = Some out"
    and ki: "keeps_inv live beh" and ri: "reach_inv live st"
  shows "reach_inv live (state_of out)"
proof (cases "map_of (events (cleanDeadHandlers live E st)) E")
  case None
  with e clean_reach_inv[OF ri, of E] show ?thesis by (auto simp: emit_def)
next
  case (Some em)
  with e have "emit_loop live beh E x (map_of (eventMapId (cleanDeadHandlers live E st)) E) []
                 (cleanDeadHandlers live E st) = Some out"
    by (simp add: emit_def Let_def)
  from emit_loop_keeps_inv[OF this ki clean_reach_inv[OF ri]] show ?thesis .
qed

lemma exec_keeps_inv:
  assumes ri: "reach_inv live st" and ch: "caller_holds live op"
    and ki: "keeps_inv live beh" and o: "exec live beh op st = Some out"
  shows "reach_inv live (state_of out)"
proof -
  from ri have inv: "pool_inv live st" and dp: "detached_plain st" by (simp_all add: reach_inv_def)
  show ?thesis
  proof (cases op)
    case (On e n)
    have "pool_inv live (snd (on e (Fn n) st))" by (rule on_pool_inv[OF inv]) simp_all
    with o On dp show ?thesis by (auto simp: reach_inv_def detached_plain_def)
  next
    case (Once e n)
    have "pool_inv live (snd (once e (Fn n) st))" by (rule once_pool_inv[OF inv]) simp
    with o Once dp show ?thesis by (auto simp: reach_inv_def detached_plain_def)
  next
    case (Off e n)
    with ch o dp show ?thesis by (auto simp: off_pool_inv[OF inv] reach_inv_def detached_plain_def)
  next
    case (OffById i)
    with o dp show ?thesis by (auto simp: offById_pool_inv[OF inv] reach_inv_def detached_plain_def)
  next
    case (RemoveAllListeners e)
    with o removeAllListeners_reach_inv[OF ri] show ?thesis by auto
  next
    case RemoveAll
    with o removeAll_reach_inv[OF ri] show ?thesis by auto
  next
    case (Emit e x)
    with o emit_keeps_inv[OF _ ki ri] show ?thesis by simp
  next
    case Sweep
    with o dp show ?thesis
      by (auto simp: sweep_pool_inv[OF inv] reach_inv_def detached_plain_def)
  qed
qed

lemma empty_reach_inv: "reach_inv live empty_pool"
  using empty_pool_inv(1)[of live] by (simp add: reach_inv_def detached_plain_def empty_pool_def)

text \<open>Every state that callers reach from the empty pool satisfies the invariant.\<close>

lemma run_keeps_inv:
  assumes "reach_inv live st" "\<forall>op \<in> set ops. caller_holds live op"
    and ki: "keeps_inv live beh" and r: "run live beh ops st = Some st'"
  shows "reach_inv live st'"
  using assms(1,2) r
proof (induction ops arbitrary: st)
  case Nil
  then show ?case by simp
next
  case (Cons op ops)
  from Cons.prems(3) obtain out where o: "exec live beh op st = Some out"
    and r: "run live beh ops (state_of out) = Some st'"
    by (cases "exec live beh op st") auto
  have "reach_inv live (state_of out)"
    by (rule exec_keeps_inv[OF Cons.prems(1) _ ki o]) (use Cons.prems(2) in simp)
  from Cons.IH[OF this _ r] Cons.prems(2) show ?case by simp
qed

lemma reachable_pool_inv:
  assumes "\<forall>op \<in> set ops. caller_holds live op" "keeps_inv live beh"
    and "run live beh ops empty_pool = Some st"
  shows "pool_inv live st"
  using run_keeps_inv[OF empty_reach_inv assms] by (simp add: reach_inv_def)

text \<open>Functions that keep away from the pool keep the invariant.\<close>

lemma leaves_pool_keeps_inv:
  assumes "\<forall>n. leaves_pool beh (Fn n)"
  shows "keeps_inv live beh"
  unfolding keeps_inv_def
proof (intro allI impI)
  fix n args st out
  assume a: "reach_inv live st \<and> beh n args st = Some out"
  from assms have "beh n args st = Some (Returns st) \<or> beh n args st = Some (Throws st)" by simp
  with a show "reach_inv live (state_of out)" by auto
qed


section \<open>The scenarios of the test suite, on the model\<close>

text \<open>The functions of the test suite return and do not call the pool.\<close>

lemmas pool_eval = on_def once_def off_def offById_def emit_def Let_def empty_pool_def
  cleanDeadHandlers_def deadEventIds_def sweepDeadHandlers_def removeAllListeners_def
  removeAll_pool_def purge_def held_map_def held_by_events_def emit_loop.simps
  all_return_def only_throws_def

lemma test_register_and_emit:
  "emit (\<lambda>h. True) all_return ''testEvent'' (7::nat)
       (snd (on ''testEvent'' (Fn 1) empty_pool))
     = Some (Returns ((snd (on ''testEvent'' (Fn 1) empty_pool))\<lparr>calls := [(Fn 1, 7)]\<rparr>))"
  by (simp add: pool_eval)

lemma test_multiple_handlers:
  "map_option (\<lambda>out. calls (state_of out))
     (emit (\<lambda>h. True) all_return ''e'' (7::nat)
        (snd (on ''e'' (Fn 2) (snd (on ''e'' (Fn 1) empty_pool)))))
     = Some [(Fn 1, 7), (Fn 2, 7)]"
  by (simp add: pool_eval)

lemma test_off:
  "map_option (\<lambda>out. calls (state_of out))
     (emit (\<lambda>h. True) all_return ''e'' (7::nat)
        (off ''e'' (Fn 1) (snd (on ''e'' (Fn 1) empty_pool))))
     = Some []"
  by (simp add: pool_eval)

lemma test_offById:
  "map_option (\<lambda>out. calls (state_of out))
     (emit (\<lambda>h. True) all_return ''e'' (7::nat)
        (offById (\<lambda>h. True) (fst (on ''e'' (Fn 1) empty_pool)) (snd (on ''e'' (Fn 1) empty_pool))))
     = Some []"
  by (simp add: pool_eval)

lemma test_once:
  "map_option (calls_of (Fn 1) \<circ> calls)
     (run (\<lambda>h. True) all_return
        [Once ''e'' 1, Emit ''e'' 7, Emit ''e'' 8] (empty_pool :: nat pool))
     = Some [(Fn 1, 7)]"
  by (simp add: pool_eval calls_of_def)

lemma test_removeAllListeners:
  "map_option (\<lambda>out. calls (state_of out))
     (emit (\<lambda>h. True) all_return ''e'' (7::nat)
        (removeAllListeners ''e'' (snd (on ''e'' (Fn 2) (snd (on ''e'' (Fn 1) empty_pool))))))
     = Some []"
  by (simp add: pool_eval)

text \<open>The test of the sweep replaces \<^verbatim>\<open>deref\<close> of the second weak reference by a
  function that returns nothing; here the weak reference of function 2 does not resolve.\<close>

lemma test_sweep_dead_handler:
  "events (sweepDeadHandlers (\<lambda>h. h \<noteq> Fn 2)
       (snd (on ''e'' (Fn 2) (snd (on ''e'' (Fn 1) (empty_pool :: nat pool))))))
     = [(''e'', [(0, WeakRef (Fn 1))])]
   \<and> handlerMap (sweepDeadHandlers (\<lambda>h. h \<noteq> Fn 2)
       (snd (on ''e'' (Fn 2) (snd (on ''e'' (Fn 1) (empty_pool :: nat pool))))))
     = [(''e'', [(Fn 1, 0)])]
   \<and> map_option (\<lambda>out. calls (state_of out))
       (emit (\<lambda>h. h \<noteq> Fn 2) all_return ''e'' 7
          (sweepDeadHandlers (\<lambda>h. h \<noteq> Fn 2)
             (snd (on ''e'' (Fn 2) (snd (on ''e'' (Fn 1) (empty_pool :: nat pool)))))))
     = Some [(Fn 1, 7)]"
  by (simp add: pool_eval)

section \<open>Functions that throw or call the pool, on the model\<close>

text \<open>Function 9 is subscribed before function 1, and throws: the loop ends there and
  function 1 is not called.\<close>

lemma earlier_subscriber_throws:
  "emit (\<lambda>h. True) (only_throws 9) ''e'' (7::nat)
       (snd (on ''e'' (Fn 1) (snd (on ''e'' (Fn 9) empty_pool))))
     = Some (Throws ((snd (on ''e'' (Fn 1) (snd (on ''e'' (Fn 9) empty_pool))))
                       \<lparr>calls := [(Fn 9, 7)]\<rparr>))"
  by (simp add: pool_eval)

text \<open>Function 9 unsubscribes function 1: the loop does not come to function 1.\<close>

lemma earlier_subscriber_unsubscribes:
  "map_option (\<lambda>out. calls (state_of out))
     (emit (\<lambda>h. True)
        (\<lambda>n args st. if n = 9 then Some (Returns (off ''e'' (Fn 1) st)) else Some (Returns st))
        ''e'' (7::nat) (snd (on ''e'' (Fn 1) (snd (on ''e'' (Fn 9) empty_pool)))))
     = Some [(Fn 9, 7)]"
  by (simp add: pool_eval)

text \<open>Function 9 subscribes function 2: the loop comes to the new entry.\<close>

lemma subscriber_subscribes:
  "map_option (\<lambda>out. calls (state_of out))
     (emit (\<lambda>h. True)
        (\<lambda>n args st. if n = 9 then Some (Returns (snd (on ''e'' (Fn 2) st))) else Some (Returns st))
        ''e'' (7::nat) (snd (on ''e'' (Fn 9) empty_pool)))
     = Some [(Fn 9, 7), (Fn 2, 7)]"
  by (simp add: pool_eval)

text \<open>Function 9 removes all listeners of the event and subscribes function 2: the loop
  goes on through the map it holds, which still has function 1, and does not see the new
  map.\<close>

lemma subscriber_removes_all_listeners:
  "map_option (\<lambda>out. calls (state_of out))
     (emit (\<lambda>h. True)
        (\<lambda>n args st. if n = 9
           then Some (Returns (snd (on ''e'' (Fn 2) (removeAllListeners ''e'' st))))
           else Some (Returns st))
        ''e'' (7::nat) (snd (on ''e'' (Fn 1) (snd (on ''e'' (Fn 9) empty_pool)))))
     = Some [(Fn 9, 7), (Fn 1, 7)]"
  by (simp add: pool_eval)

text \<open>The function that was subscribed once throws: the closure does not come to its
  \<^verbatim>\<open>off\<close>, stays subscribed, and the next emit calls the function again.\<close>

lemma once_handler_throws:
  "run (\<lambda>h. True) (\<lambda>n args st. Some (Throws st))
        [Once ''e'' 1, Emit ''e'' 7, Emit ''e'' 8] (empty_pool :: nat pool)
     = Some ((snd (once ''e'' (Fn 1) empty_pool))
               \<lparr>calls := [(OnceHandler 0 ''e'' (Fn 1), 7), (Fn 1, 7),
                          (OnceHandler 0 ''e'' (Fn 1), 8), (Fn 1, 8)]\<rparr>)"
  by (simp add: pool_eval)

section \<open>The pool of the worked examples\<close>

lemma demo_pool_eq:
  "demo_pool = \<lparr>events = [(''a'', [(0, WeakRef (Fn 1)), (2, WeakRef (OnceHandler 0 ''a'' (Fn 2)))]),
                           (''b'', [(1, WeakRef (Fn 3))])],
                 handlerMap = [(''a'', [(Fn 1, 0), (OnceHandler 0 ''a'' (Fn 2), 2)]),
                               (''b'', [(Fn 3, 1)])],
                 nextSymbol = 3, nextClosure = 1, calls = [],
                 eventMapId = [(''a'', 0), (''b'', 1)], nextMapId = 2, detached = []\<rparr>"
  by (simp add: demo_pool_def on_def once_def Let_def empty_pool_def)

lemma demo_pool_inv: "pool_inv (\<lambda>h. True) demo_pool"
  by (simp add: demo_pool_eq pool_inv_def maps_distinct_def table_distinct_def
        symbols_fresh_def symbols_unique_def handlers_scoped_def reverse_sound_def
        wrappers_indexed_def lookup_events_def lookup_handlerMap_def)


lemma demo_pool_handlers:
  "event_handlers demo_pool ''a'' = [Fn 1, OnceHandler 0 ''a'' (Fn 2), Fn 2]"
  by (simp add: demo_pool_eq event_handlers_def)

lemma demo_pool_inv_b_dead: "pool_inv (\<lambda>h. h \<noteq> Fn 3) demo_pool"
  by (rule pool_inv_antimono[OF demo_pool_inv]) simp

section \<open>Claim C7: unknown events, handlers and identifiers\<close>

text \<open>
  Claim C7. \<^verbatim>\<open>off\<close> with an event that has no tables, or with a handler that has no
  recorded subscription, and \<^verbatim>\<open>offById\<close> with an identifier that no subscription table
  holds, return the state they were given (the model has no error result because the
  source has no raising path there).
\<close>

theorem C7_unknown_removal_is_noop:
  "(map_of (events st) event = None \<or> map_of (handlerMap st) event = None
      \<or> (\<exists>hMap. map_of (handlerMap st) event = Some hMap \<and> map_of hMap handler = None)
      \<longrightarrow> off event handler st = st)
   \<and> ((\<forall>p \<in> set (events st). map_of (snd p) eventId = None)
      \<longrightarrow> offById live eventId st = st)"
proof (intro conjI impI)
  assume "map_of (events st) event = None \<or> map_of (handlerMap st) event = None
      \<or> (\<exists>hMap. map_of (handlerMap st) event = Some hMap \<and> map_of hMap handler = None)"
  then show "off event handler st = st"
    by (auto simp: off_def split: option.splits)
next
  assume "\<forall>p \<in> set (events st). map_of (snd p) eventId = None"
  then have "find (\<lambda>(event, eventMap). map_of eventMap eventId \<noteq> None) (events st) = None"
    by (rule find_None_has)
  then show "offById live eventId st = st"
    by (simp only: offById_def option.case)
qed


theorem C7_unknown_removal_witness:
  "map_of (events (snd (on ''a'' (Fn 1) (empty_pool :: unit pool)))) ''b'' = None
   \<and> off ''b'' (Fn 1) (snd (on ''a'' (Fn 1) (empty_pool :: unit pool)))
       = snd (on ''a'' (Fn 1) (empty_pool :: unit pool))
   \<and> list_all (\<lambda>p. map_of (snd p) 7 = None) (events (snd (on ''a'' (Fn 1) (empty_pool :: unit pool))))
   \<and> offById (\<lambda>h. True) 7 (snd (on ''a'' (Fn 1) (empty_pool :: unit pool)))
       = snd (on ''a'' (Fn 1) (empty_pool :: unit pool))"
  using C7_unknown_removal_is_noop
          [of "snd (on ''a'' (Fn 1) (empty_pool :: unit pool))" "''b''" "Fn 1" 7 "\<lambda>h. True"]
  by (simp add: on_def empty_pool_def)


section \<open>Claim C9: rows are emptied, not destroyed\<close>




section \<open>Claim C2: what the pool keeps alive\<close>

text \<open>
  Claim C2. After \<^verbatim>\<open>on\<close> the handler is a key of an inner map of
  \<^verbatim>\<open>handlerMap\<close>, and after \<^verbatim>\<open>once\<close> so are the closure and the handler it
  captured: the pool holds them strongly, whatever the caller drops.
\<close>

theorem C2_pool_holds_handler_strongly:
  "strong_handlers (snd (on ''a'' (Fn 1) (empty_pool :: unit pool))) = [Fn 1]
   \<and> strong_handlers (snd (once ''a'' (Fn 1) (empty_pool :: unit pool)))
       = [OnceHandler 0 ''a'' (Fn 1), Fn 1]"
  by (simp add: on_def once_def Let_def empty_pool_def strong_handlers_def)

section \<open>Claim C4: removal by identifier against removal by handler\<close>

text \<open>
  Claim C4. When the symbols in the subscription tables were minted before (the next
  one is new) and the handler is live, as one that the caller passes to \<^verbatim>\<open>off\<close> is:
  \<^verbatim>\<open>offById\<close> with the symbol that \<^verbatim>\<open>on(event, handler)\<close> returned gives the state
  that \<^verbatim>\<open>off(event, handler)\<close> gives.
\<close>

theorem C4_offById_agrees_with_off:
  assumes fresh: "symbols_fresh st" and lv: "live handler"
  shows "offById live (fst (on event handler st)) (snd (on event handler st))
           = off event handler (snd (on event handler st))"
proof -
  define i where "i = nextSymbol st"
  define cr where "cr = (map_of (events st) event = None)"
  define ev1 where "ev1 = (if cr then AList.update event [] (events st) else events st)"
  define hm1 where "hm1 = (if map_of (handlerMap st) event = None
                           then AList.update event [] (handlerMap st) else handlerMap st)"
  obtain em0 where em0: "map_of ev1 event = Some em0"
    unfolding ev1_def cr_def by (cases "map_of (events st) event") (auto simp: update_conv')
  obtain hm0 where hm0: "map_of hm1 event = Some hm0"
    unfolding hm1_def by (cases "map_of (handlerMap st) event") (auto simp: update_conv')
  define em2 where "em2 = AList.update i (WeakRef handler) em0"
  define hm2 where "hm2 = AList.update handler i hm0"
  define st1 where "st1 = st\<lparr>events := AList.update event em2 ev1,
                               handlerMap := AList.update event hm2 hm1,
                               nextSymbol := Suc (nextSymbol st),
                               eventMapId := (if cr then AList.update event (nextMapId st) (eventMapId st)
                                              else eventMapId st),
                               nextMapId := (if cr then Suc (nextMapId st) else nextMapId st)\<rparr>"
  have on_eq: "on event handler st = (i, st1)"
    unfolding on_def Let_def cr_def[symmetric]
    by (simp add: ev1_def[symmetric] hm1_def[symmetric] em0 hm0 st1_def em2_def hm2_def i_def)
  have no_owner: "\<forall>p \<in> set ev1. \<not> (case p of (event, eventMap) \<Rightarrow> map_of eventMap i \<noteq> None)"
  proof
    fix p assume p: "p \<in> set ev1"
    have "p \<in> set (events st) \<or> p = (event, [])"
      using p set_update_subset[of event "[]" "events st"] unfolding ev1_def cr_def
      by (auto split: if_splits)
    then have "map_of (snd p) i = None"
      using symbols_fresh_no_owner[OF fresh, of p] unfolding i_def by auto
    then show "\<not> (case p of (event, eventMap) \<Rightarrow> map_of eventMap i \<noteq> None)"
      by (cases p) simp
  qed
  have has: "case (event, em2) of (event, eventMap) \<Rightarrow> map_of eventMap i \<noteq> None"
    by (simp add: em2_def update_conv')
  have f: "find (\<lambda>(event, eventMap). map_of eventMap i \<noteq> None) (events st1) = Some (event, em2)"
    unfolding st1_def using find_update_fresh[OF no_owner has] by simp
  have d: "Option.bind (map_of em2 i) (deref live) = Some handler"
    using lv by (simp add: em2_def update_conv')
  have l: "offById live i st1 =
      st1\<lparr>events := AList.update event (AList.delete i em2) (events st1),
          handlerMap := (case Option.bind (map_of em2 i) (deref live) of
                    None \<Rightarrow> handlerMap st1
                  | Some handler \<Rightarrow>
                      (case map_of (handlerMap st1) event of
                         None \<Rightarrow> handlerMap st1
                       | Some hMap \<Rightarrow>
                           AList.update event (AList.delete handler hMap) (handlerMap st1)))\<rparr>"
    unfolding offById_def f by (simp only: option.case prod.case Let_def)
  have hl: "map_of (handlerMap st1) event = Some hm2" "map_of (events st1) event = Some em2"
    "map_of hm2 handler = Some i"
    by (simp_all add: st1_def hm2_def update_conv')
  have r: "off event handler st1 =
      st1\<lparr>events := AList.update event (AList.delete i em2) (events st1),
          handlerMap := AList.update event (AList.delete handler hm2) (handlerMap st1)\<rparr>"
    by (simp add: off_def hl)
  show ?thesis unfolding on_eq fst_conv snd_conv l r by (simp add: d hl)
qed

theorem C4_offById_agrees_witness:
  "symbols_fresh (snd (on ''b'' (Fn 2) (empty_pool :: unit pool)))
   \<and> offById (\<lambda>h. True) (fst (on ''a'' (Fn 1) (snd (on ''b'' (Fn 2) (empty_pool :: unit pool)))))
        (snd (on ''a'' (Fn 1) (snd (on ''b'' (Fn 2) (empty_pool :: unit pool)))))
       = off ''a'' (Fn 1) (snd (on ''a'' (Fn 1) (snd (on ''b'' (Fn 2) (empty_pool :: unit pool)))))"
proof -
  have h: "symbols_fresh (snd (on ''b'' (Fn 2) (empty_pool :: unit pool)))"
    by (simp add: symbols_fresh_def on_def empty_pool_def)
  show ?thesis
    using h C4_offById_agrees_with_off[OF h, of "\<lambda>h. True" "Fn 1" "''a''"] by simp
qed

text \<open>The same holds in any later state that the public operations can reach, as long as
  the symbol is still the one that the reverse table records for the handler.\<close>

lemma offById_agrees_with_off_later:
  assumes inv: "pool_inv live st" and lv: "live handler"
    and ev: "lookup_events st event i = Some (WeakRef handler)"
    and rv: "lookup_handlerMap st event handler = Some i"
  shows "offById live i st = off event handler st"
proof -
  note D = pool_invD[OF inv]
  from ev obtain em where em: "map_of (events st) event = Some em"
    and emi: "map_of em i = Some (WeakRef handler)"
    by (auto simp: lookup_events_def split: option.splits)
  from rv obtain hm where hm: "map_of (handlerMap st) event = Some hm"
    and hmh: "map_of hm handler = Some i"
    by (auto simp: lookup_handlerMap_def split: option.splits)
  obtain p where f: "find (\<lambda>(event, eventMap). map_of eventMap i \<noteq> None) (events st) = Some p"
    using ev offById_none(2)[of i st event]
    by (cases "find (\<lambda>(event, eventMap). map_of eventMap i \<noteq> None) (events st)") auto
  obtain E m where p: "p = (E, m)" by (cases p)
  from find_SomeD[OF f] p have mem: "(E, m) \<in> set (events st)" by simp
  with D(1) have Em: "map_of (events st) E = Some m"
    by (simp add: maps_distinct_def table_distinct_def)
  from offById_found(1)[OF D(1) f[unfolded p], of live] obtain w where
    "lookup_events st E i = Some w" by blast
  with ev D(3) have E: "E = event" by fastforce
  with Em em have m: "m = em" by simp
  have "offById live i st =
      st\<lparr>events := AList.update E (AList.delete i m) (events st),
         handlerMap := (case Option.bind (map_of m i) (deref live) of
                    None \<Rightarrow> handlerMap st
                  | Some handler \<Rightarrow>
                      (case map_of (handlerMap st) E of
                         None \<Rightarrow> handlerMap st
                       | Some hMap \<Rightarrow>
                           AList.update E (AList.delete handler hMap) (handlerMap st)))\<rparr>"
    unfolding offById_def f p by (simp only: option.case prod.case Let_def)
  also have "\<dots> = off event handler st"
    using lv by (simp add: E m emi hm hmh em off_def)
  finally show ?thesis .
qed


section \<open>Claim C10: operations on one event leave the other events alone\<close>

text \<open>
  Claim C10. For two distinct events \<open>event\<close> and \<open>other\<close>, and a state that the
  public operations can reach (\<open>pool_inv\<close>): \<^verbatim>\<open>on\<close>, \<^verbatim>\<open>once\<close>, \<^verbatim>\<open>off\<close> and
  \<^verbatim>\<open>removeAllListeners\<close> on \<open>event\<close>, and \<^verbatim>\<open>offById\<close> with a symbol that the
  subscription table of \<open>event\<close> holds, leave both tables of \<open>other\<close> as they were. So
  does \<^verbatim>\<open>emit\<close> on \<open>event\<close>, provided the functions that it calls do not themselves
  call the pool: it returns or throws, and in both cases the tables of \<open>other\<close> are as
  they were. Besides those functions \<^verbatim>\<open>emit\<close> calls closures of \<^verbatim>\<open>once\<close>, and
  those are closures for \<open>event\<close>.
\<close>

theorem C10_other_event_untouched:
  assumes inv: "pool_inv live st" and ne: "other \<noteq> event"
  shows "map_of (events (snd (on event handler st))) other = map_of (events st) other
    \<and> map_of (handlerMap (snd (on event handler st))) other = map_of (handlerMap st) other
    \<and> map_of (events (snd (once event handler st))) other = map_of (events st) other
    \<and> map_of (handlerMap (snd (once event handler st))) other = map_of (handlerMap st) other
    \<and> map_of (events (off event handler st)) other = map_of (events st) other
    \<and> map_of (handlerMap (off event handler st)) other = map_of (handlerMap st) other
    \<and> map_of (events (removeAllListeners event st)) other = map_of (events st) other
    \<and> map_of (handlerMap (removeAllListeners event st)) other = map_of (handlerMap st) other
    \<and> (list_all (leaves_pool beh) (event_handlers st event) \<longrightarrow>
          (\<exists>out. emit live beh event args st = Some out)
          \<and> (\<forall>out. emit live beh event args st = Some out \<longrightarrow>
                map_of (events (state_of out)) other = map_of (events st) other
                \<and> map_of (handlerMap (state_of out)) other = map_of (handlerMap st) other))
    \<and> (lookup_events st event eventId \<noteq> None \<longrightarrow>
          map_of (events (offById live eventId st)) other = map_of (events st) other
          \<and> map_of (handlerMap (offById live eventId st)) other = map_of (handlerMap st) other)"
proof -
  have em: "(\<exists>out. emit live beh event args st = Some out)
          \<and> (\<forall>out. emit live beh event args st = Some out \<longrightarrow>
                map_of (events (state_of out)) other = map_of (events st) other
                \<and> map_of (handlerMap (state_of out)) other = map_of (handlerMap st) other)"
    if "list_all (leaves_pool beh) (event_handlers st event)"
  proof -
    from that have lp: "\<forall>g \<in> set (event_handlers st event). leaves_pool beh g"
      by (simp add: list_all_iff)
    show ?thesis
      using emit_terminates[OF inv lp, of args] emit_frame[OF inv ne lp, of args]
      by blast
  qed
  show ?thesis
    using on_frame[OF ne, of handler st]
      on_frame[OF ne, of "OnceHandler (nextClosure st) event handler"
                         "st\<lparr>nextClosure := Suc (nextClosure st)\<rparr>"]
      off_frame[OF ne, of handler st] removeAllListeners_frame[OF ne, of st]
      em offById_frame[OF inv _ ne, of eventId]
    by (simp add: once_eq)
qed

text \<open>In the witness function 2, which is subscribed once to \<open>a\<close>, throws.\<close>

theorem C10_other_event_witness:
  "pool_inv (\<lambda>h. True) demo_pool \<and> ''b'' \<noteq> ''a''
   \<and> list_all (leaves_pool (only_throws 2 :: nat behaviour))
        (event_handlers demo_pool ''a'')
   \<and> lookup_events demo_pool ''a'' 0 \<noteq> None
   \<and> (\<exists>out. emit (\<lambda>h. True) (only_throws 2)
               ''a'' 7 demo_pool = Some out
          \<and> map_of (events (state_of out)) ''b'' = map_of (events demo_pool) ''b''
          \<and> map_of (handlerMap (state_of out)) ''b'' = map_of (handlerMap demo_pool) ''b'')
   \<and> map_of (events (offById (\<lambda>h. True) 0 demo_pool)) ''b'' = map_of (events demo_pool) ''b''
   \<and> map_of (handlerMap (offById (\<lambda>h. True) 0 demo_pool)) ''b''
        = map_of (handlerMap demo_pool) ''b''
   \<and> map_of (events (snd (on ''a'' (Fn 5) demo_pool))) ''b'' = map_of (events demo_pool) ''b''"
proof -
  have h: "''b'' \<noteq> ''a''" "lookup_events demo_pool ''a'' 0 \<noteq> None"
    by (simp_all add: demo_pool_eq lookup_events_def)
  have l: "list_all (leaves_pool (only_throws 2 :: nat behaviour))
        (event_handlers demo_pool ''a'')"
    by (simp add: demo_pool_handlers only_throws_def)
  note T = C10_other_event_untouched[OF demo_pool_inv h(1),
      where beh="only_throws 2"
        and handler="Fn 5" and args=7 and eventId=0]
  from T l have "\<exists>out. emit (\<lambda>h. True) (only_throws 2)
               ''a'' 7 demo_pool = Some out
          \<and> map_of (events (state_of out)) ''b'' = map_of (events demo_pool) ''b''
          \<and> map_of (handlerMap (state_of out)) ''b'' = map_of (handlerMap demo_pool) ''b''"
    by blast
  then show ?thesis using demo_pool_inv h l T by simp
qed

section \<open>Claim C6: sweeping\<close>

text \<open>
  Claim C6. \<^verbatim>\<open>sweepDeadHandlers\<close> run twice, with the same weak references resolving,
  gives the state of running it once; and in a state that the public operations can
  reach it keeps every subscription entry whose weak reference resolves, and the reverse
  entry of every live handler.
\<close>

theorem C6_sweep_idempotent_keeps_live:
  "sweepDeadHandlers live (sweepDeadHandlers live st) = sweepDeadHandlers live st
   \<and> (pool_inv live st \<longrightarrow>
        (\<forall>e i w. lookup_events st e i = Some w \<longrightarrow> deref live w \<noteq> None
            \<longrightarrow> lookup_events (sweepDeadHandlers live st) e i = Some w)
      \<and> (\<forall>e h i. lookup_handlerMap st e h = Some i \<longrightarrow> live h
            \<longrightarrow> lookup_handlerMap (sweepDeadHandlers live st) e h = Some i))"
proof (intro conjI impI allI)
  show "sweepDeadHandlers live (sweepDeadHandlers live st) = sweepDeadHandlers live st"
    by (rule sweep_idempotent)
next
  fix e i w
  assume "pool_inv live st" "lookup_events st e i = Some w" "deref live w \<noteq> None"
  then show "lookup_events (sweepDeadHandlers live st) e i = Some w"
    using fold_clean_keeps_live[where live=live and st=st and e=e and i=i and w=w]
    by (simp add: sweepDeadHandlers_def)
next
  fix e h i
  assume "pool_inv live st" "lookup_handlerMap st e h = Some i" "live h"
  then show "lookup_handlerMap (sweepDeadHandlers live st) e h = Some i"
    using fold_clean_keeps_live[where live=live and st=st and e=e and h=h and j=i]
    by (simp add: sweepDeadHandlers_def)
qed


theorem C6_sweep_witness:
  "pool_inv (\<lambda>h. h \<noteq> Fn 3) demo_pool
   \<and> lookup_events demo_pool ''a'' 0 = Some (WeakRef (Fn 1))
   \<and> deref (\<lambda>h. h \<noteq> Fn 3) (WeakRef (Fn 1)) \<noteq> None
   \<and> lookup_handlerMap demo_pool ''a'' (Fn 1) = Some 0
   \<and> lookup_events (sweepDeadHandlers (\<lambda>h. h \<noteq> Fn 3) demo_pool) ''a'' 0 = Some (WeakRef (Fn 1))
   \<and> lookup_handlerMap (sweepDeadHandlers (\<lambda>h. h \<noteq> Fn 3) demo_pool) ''a'' (Fn 1) = Some 0
   \<and> sweepDeadHandlers (\<lambda>h. h \<noteq> Fn 3) (sweepDeadHandlers (\<lambda>h. h \<noteq> Fn 3) demo_pool)
        = sweepDeadHandlers (\<lambda>h. h \<noteq> Fn 3) demo_pool"
proof -
  have h: "lookup_events demo_pool ''a'' 0 = Some (WeakRef (Fn 1))"
    "lookup_handlerMap demo_pool ''a'' (Fn 1) = Some 0"
    by (simp_all add: demo_pool_eq lookup_events_def lookup_handlerMap_def)
  have d: "deref (\<lambda>h. h \<noteq> Fn 3) (WeakRef (Fn 1)) \<noteq> None" by simp
  note T = C6_sweep_idempotent_keeps_live[of "\<lambda>h. h \<noteq> Fn 3" demo_pool]
  from T demo_pool_inv_b_dead h(1) d
  have 1: "lookup_events (sweepDeadHandlers (\<lambda>h. h \<noteq> Fn 3) demo_pool) ''a'' 0 = Some (WeakRef (Fn 1))"
    by auto
  from T demo_pool_inv_b_dead h(2)
  have 2: "lookup_handlerMap (sweepDeadHandlers (\<lambda>h. h \<noteq> Fn 3) demo_pool) ''a'' (Fn 1) = Some 0"
    by auto
  from T have 3: "sweepDeadHandlers (\<lambda>h. h \<noteq> Fn 3) (sweepDeadHandlers (\<lambda>h. h \<noteq> Fn 3) demo_pool)
        = sweepDeadHandlers (\<lambda>h. h \<noteq> Fn 3) demo_pool" by blast
  show ?thesis using demo_pool_inv_b_dead h d 1 2 3 by blast
qed


section \<open>Claim C3: agreement of the two tables\<close>





section \<open>Claim C1: subscribing and emitting\<close>







section \<open>Claim C5: a handler subscribed twice\<close>





section \<open>Subscribing once, when the functions return\<close>

text \<open>What \<^verbatim>\<open>once\<close> gives when the function returns, in terms of \<open>emit_quiet\<close>: the
  first emit that finds the closure live calls it once, the closure calls the function and
  removes its own subscription, and no later emit calls the closure.\<close>

lemma once_fires_once_quiet:
  assumes inv: "pool_inv live st" and pl: "\<not> is_wrapper handler"
    and W: "W = OnceHandler (nextClosure st) event handler" and lw: "live W"
    and eventId: "eventId = fst (once event handler st)"
    and st1: "st1 = snd (once event handler st)"
    and st2: "st2 = emit_quiet live event a st1"
    and later: "\<forall>h. live' h \<longrightarrow> live h"
    and st3: "st3 = fold (emit_quiet live' event) bs st2"
  shows "invoke_quiet W a s = off event W (s\<lparr>calls := calls s @ [(W, a), (handler, a)]\<rparr>)
    \<and> lookup_events st1 event eventId = Some (WeakRef W)
    \<and> calls_of W (calls st2) = calls_of W (calls st) @ [(W, a)]
    \<and> lookup_events st2 event eventId = None
    \<and> lookup_handlerMap st2 event W = None
    \<and> calls_of W (calls st3) = calls_of W (calls st2)
    \<and> (handler \<notin> set (event_handlers st event)
         \<longrightarrow> calls_of handler (calls st2) = calls_of handler (calls st) @ [(handler, a)]
             \<and> calls_of handler (calls st3) = calls_of handler (calls st2))"
proof -
  note D = pool_invD[OF inv]
  let ?st0 = "st\<lparr>nextClosure := Suc (nextClosure st)\<rparr>"
  have st1': "st1 = snd (on event W ?st0)" and id': "eventId = nextSymbol st"
    by (simp_all add: st1 eventId once_eq W on_fst)
  have inv1: "pool_inv live st1" unfolding st1 by (rule once_pool_inv[OF inv pl])
  have inv2: "pool_inv live st2" unfolding st2 by (rule emit_quiet_pool_inv[OF inv1])
  have inv2': "pool_inv live' st2" by (rule pool_inv_antimono[OF inv2 later])
  have fresh0: "symbols_fresh ?st0" using pool_inv_fresh[OF inv] by (simp add: symbols_fresh_def)
  have c1: "invoke_quiet W a s = off event W (s\<lparr>calls := calls s @ [(W, a), (handler, a)]\<rparr>)"
    unfolding W by (rule invoke_quiet_wrapper[OF pl])
  have e1: "lookup_events st1 event eventId = Some (WeakRef W)"
    by (simp add: st1' on_lookup_events id')
  have lt: "live_targets live st1 event = live_targets live st event @ [W]"
    using live_targets_on[OF fresh0, of live event W] lw
    by (simp add: st1' live_targets_def)
  have eh: "event_handlers st1 event = event_handlers st event @ captured W"
    using event_handlers_on[OF fresh0, of event W] by (simp add: st1' event_handlers_def)
  have calls1: "calls st1 = calls st" by (simp add: st1' on_counters)
  have calls2: "calls st2 = calls st @ concat (map (\<lambda>g. trace g a) (live_targets live st event))
                             @ trace W a"
    by (simp add: st2 emit_quiet_calls[OF inv1] lt calls1)
  have noW: "W \<notin> set (captured (target w))" if "lookup_events st e i = Some w" for e i w
    unfolding W by (rule scoped_not_captured[OF D(4)[OF that]]) simp
  have noW_old: "W \<notin> set (event_handlers st event)"
    unfolding event_handlers_iff[OF D(1)] using noW by blast
  have oldW: "\<forall>g \<in> set (live_targets live st event). W \<notin> set (captured g)"
    using noW_old live_targets_sub by blast
  have tw: "calls_of W (trace W a) = [(W, a)]" "calls_of handler (trace W a) = [(handler, a)]"
    unfolding W by (rule calls_of_trace_wrapper[OF pl])+
  have c3: "calls_of W (calls st2) = calls_of W (calls st) @ [(W, a)]"
    by (simp add: calls2 calls_of_traces_none[OF oldW] tw)
  have c4: "lookup_events st2 event eventId = None"
    and c5: "lookup_handlerMap st2 event W = None"
    unfolding st2 using emit_quiet_removes_wrapper[OF inv1 e1 lw] W by simp_all
  have sub2: "lookup_events st e i = Some w \<and> \<not> (e = event \<and> i = eventId)"
    if a2: "lookup_events st2 e i = Some w" for e i w
  proof -
    from emit_quiet_events_shrink[OF inv1 a2[unfolded st2]]
    have a1: "lookup_events st1 e i = Some w" .
    have ne: "\<not> (e = event \<and> i = eventId)" using a2 c4 by auto
    with a1 show ?thesis by (auto simp: st1' on_lookup_events id' split: if_splits)
  qed
  have noW2: "W \<notin> set (event_handlers st2 event)"
    unfolding event_handlers_iff[OF pool_invD(1)[OF inv2]] using sub2 noW by blast
  have c6: "calls_of W (calls st3) = calls_of W (calls st2)"
    unfolding st3 by (rule emits_quiet[OF inv2' noW2])
  have c7: "calls_of handler (calls st2) = calls_of handler (calls st) @ [(handler, a)]
             \<and> calls_of handler (calls st3) = calls_of handler (calls st2)"
    if new: "handler \<notin> set (event_handlers st event)"
  proof -
    have old: "\<forall>g \<in> set (live_targets live st event). handler \<notin> set (captured g)"
      using new live_targets_sub by blast
    have h2: "calls_of handler (calls st2) = calls_of handler (calls st) @ [(handler, a)]"
      by (simp add: calls2 calls_of_traces_none[OF old] tw)
    have "handler \<notin> set (event_handlers st2 event)"
      unfolding event_handlers_iff[OF pool_invD(1)[OF inv2]]
      using sub2 new[unfolded event_handlers_iff[OF D(1)]] by blast
    from emits_quiet[OF inv2' this] h2 show ?thesis by (simp add: st3)
  qed
  show ?thesis using c1 e1 c3 c4 c5 c6 c7 by blast
qed


lemma returns_quietly_all: "\<forall>n. returns_quietly beh (Fn n) \<Longrightarrow> returns_quietly beh g"
  by (induction g) simp_all

lemma run_emits_quiet:
  assumes "pool_inv live st" and rq: "\<forall>n. returns_quietly beh (Fn n)"
  shows "run live beh (map (Emit E) bs) st = Some (fold (emit_quiet live E) bs st)"
  using assms(1)
proof (induction bs arbitrary: st)
  case Nil
  then show ?case by simp
next
  case (Cons b bs)
  have "\<forall>g \<in> set (event_handlers st E). returns_quietly beh g"
    using returns_quietly_all[OF rq] by blast
  from emit_returns[OF Cons.prems this, of b]
  have "emit live beh E b st = Some (Returns (emit_quiet live E b st))" .
  then show ?case using Cons.IH[OF emit_quiet_pool_inv[OF Cons.prems]] by simp
qed

text \<open>The same for \<^verbatim>\<open>emit\<close>, when the functions of the callers return without having
  called the pool: \<^verbatim>\<open>once(event, handler)\<close>, an emit on \<open>event\<close> with \<open>a\<close>, and any
  number of further emits on \<open>event\<close>.\<close>

lemma once_fires_once_if_functions_return:
  assumes inv: "pool_inv live st" and pl: "\<not> is_wrapper handler"
    and W: "W = OnceHandler (nextClosure st) event handler" and lw: "live W"
    and st1: "st1 = snd (once event handler st)"
    and rq: "\<forall>n. returns_quietly beh (Fn n)"
  shows "\<exists>st2 st3. emit live beh event a st1 = Some (Returns st2)
           \<and> run live beh (map (Emit event) bs) st2 = Some st3
           \<and> calls_of W (calls st2) = calls_of W (calls st) @ [(W, a)]
           \<and> lookup_events st2 event (fst (once event handler st)) = None
           \<and> lookup_handlerMap st2 event W = None
           \<and> calls_of W (calls st3) = calls_of W (calls st2)
           \<and> (handler \<notin> set (event_handlers st event)
                \<longrightarrow> calls_of handler (calls st2) = calls_of handler (calls st) @ [(handler, a)]
                    \<and> calls_of handler (calls st3) = calls_of handler (calls st2))"
proof -
  let ?st2 = "emit_quiet live event a st1"
  let ?st3 = "fold (emit_quiet live event) bs ?st2"
  have inv1: "pool_inv live st1" unfolding st1 by (rule once_pool_inv[OF inv pl])
  have inv2: "pool_inv live ?st2" by (rule emit_quiet_pool_inv[OF inv1])
  have "\<forall>g \<in> set (event_handlers st1 event). returns_quietly beh g"
    using returns_quietly_all[OF rq] by blast
  from emit_returns[OF inv1 this, of a]
  have e: "emit live beh event a st1 = Some (Returns ?st2)" .
  have r: "run live beh (map (Emit event) bs) ?st2 = Some ?st3"
    by (rule run_emits_quiet[OF inv2 rq])
  note Q = once_fires_once_quiet[OF inv pl W lw refl st1 refl _ refl,
              where live'=live and a=a and bs=bs]
  from Q have "calls_of W (calls ?st2) = calls_of W (calls st) @ [(W, a)]
           \<and> lookup_events ?st2 event (fst (once event handler st)) = None
           \<and> lookup_handlerMap ?st2 event W = None
           \<and> calls_of W (calls ?st3) = calls_of W (calls ?st2)
           \<and> (handler \<notin> set (event_handlers st event)
                \<longrightarrow> calls_of handler (calls ?st2) = calls_of handler (calls st) @ [(handler, a)]
                    \<and> calls_of handler (calls ?st3) = calls_of handler (calls ?st2))"
    by simp
  with e r show ?thesis by blast
qed

section \<open>Claim C8: subscribing once\<close>

text \<open>
  Claim C8. The code does not keep the claim when the function that was subscribed once
  throws. The closure \<^verbatim>\<open>onceHandler\<close> calls \<^verbatim>\<open>this.off(event, onceHandler)\<close> after
  \<^verbatim>\<open>handler(...args)\<close>, with no \<^verbatim>\<open>finally\<close>: when the function throws, the closure does
  not come to its \<^verbatim>\<open>off\<close>, the emit throws, the subscription of the closure is still
  there, and the next emit on the event calls the function again. Below, function 1 throws;
  it is subscribed once to \<open>a\<close> in the empty pool, and there are two emits on \<open>a\<close>: both
  throw, the closure is subscribed after the first, and function 1 has been called by both.
\<close>

theorem C8_once_handler_that_throws_is_called_again:
  "emit (\<lambda>h. True) (only_throws 1) ''a'' (7::nat) (snd (once ''a'' (Fn 1) empty_pool))
     = Some (Throws ((snd (once ''a'' (Fn 1) empty_pool))
                       \<lparr>calls := [(OnceHandler 0 ''a'' (Fn 1), 7), (Fn 1, 7)]\<rparr>))
   \<and> lookup_events
        ((snd (once ''a'' (Fn 1) (empty_pool :: nat pool)))
           \<lparr>calls := [(OnceHandler 0 ''a'' (Fn 1), 7), (Fn 1, 7)]\<rparr>)
        ''a'' (fst (once ''a'' (Fn 1) (empty_pool :: nat pool)))
       = Some (WeakRef (OnceHandler 0 ''a'' (Fn 1)))
   \<and> emit (\<lambda>h. True) (only_throws 1) ''a'' 8
        ((snd (once ''a'' (Fn 1) empty_pool))
           \<lparr>calls := [(OnceHandler 0 ''a'' (Fn 1), 7), (Fn 1, 7)]\<rparr>)
     = Some (Throws ((snd (once ''a'' (Fn 1) empty_pool))
                       \<lparr>calls := [(OnceHandler 0 ''a'' (Fn 1), 7), (Fn 1, 7),
                                  (OnceHandler 0 ''a'' (Fn 1), 8), (Fn 1, 8)]\<rparr>))
   \<and> calls_of (Fn 1) [(OnceHandler 0 ''a'' (Fn 1), 7), (Fn 1, 7),
                       (OnceHandler 0 ''a'' (Fn 1), 8), (Fn 1, 8::nat)]
       = [(Fn 1, 7), (Fn 1, 8)]"
  by (simp add: pool_eval calls_of_def lookup_events_def)


end
